theory Spec2Isabelle
  imports Main "HOL-Library.AList" "HOL-Library.Multiset" "HOL-Library.Char_ord"
    "HOL-Library.List_Lexorder"
begin

section \<open>Values exchanged with the API\<close>

text \<open>
  The handlers of \<^verbatim>\<open>isolation_proof/api.py\<close> receive and produce JSON. A decoded JSON
  document is a Python value: \<^verbatim>\<open>None\<close>, a bool, a number, a \<^verbatim>\<open>str\<close>, a \<^verbatim>\<open>list\<close> or a
  \<^verbatim>\<open>dict\<close> with string keys. The handlers only ever test such a value with
  \<^verbatim>\<open>isinstance(_, list)\<close>, \<^verbatim>\<open>isinstance(_, dict)\<close>, \<^verbatim>\<open>is None\<close> and \<^verbatim>\<open>dict.get\<close>, so
  numbers are kept as integers; a dict is the association list of its items.
\<close>

datatype json =
    JNull
  | JBool bool
  | JInt int
  | JStr string
  | JList "json list"
  | JDict "(string \<times> json) list"

text \<open>\<^verbatim>\<open>isinstance(v, dict)\<close> and \<^verbatim>\<open>isinstance(v, list)\<close>.\<close>

fun is_dict :: "json \<Rightarrow> bool" where
  "is_dict (JDict _) = True"
| "is_dict _ = False"

fun is_list :: "json \<Rightarrow> bool" where
  "is_list (JList _) = True"
| "is_list _ = False"

text \<open>\<^verbatim>\<open>d.get(key)\<close> on a dict: the value stored under the key, \<^verbatim>\<open>None\<close> when absent.\<close>

fun dict_get :: "json \<Rightarrow> string \<Rightarrow> json" where
  "dict_get (JDict kvs) k = (case map_of kvs k of None \<Rightarrow> JNull | Some v \<Rightarrow> v)"
| "dict_get _ k = JNull"

section \<open>Strings\<close>

text \<open>
  Header values reach the handler decoded as Latin-1, so a character is a code point
  below 256. \<^verbatim>\<open>str.isspace\<close> holds of exactly these twelve of them.
\<close>

definition is_space :: "char \<Rightarrow> bool" where
  "is_space c = (of_char c \<in> {9, 10, 11, 12, 13, 28, 29, 30, 31, 32, 133, 160 :: nat})"

text \<open>\<^verbatim>\<open>s.strip()\<close>, \<^verbatim>\<open>s.rstrip("/")\<close>, \<^verbatim>\<open>s.startswith(p)\<close> and \<^verbatim>\<open>s.split(sep)\<close>.\<close>

definition strip :: "string \<Rightarrow> string" where
  "strip s = rev (dropWhile is_space (rev (dropWhile is_space s)))"

definition rstrip_slash :: "string \<Rightarrow> string" where
  "rstrip_slash s = rev (dropWhile (\<lambda>c. c = CHR ''/'') (rev s))"

definition startswith :: "string \<Rightarrow> string \<Rightarrow> bool" where
  "startswith s p = (take (length p) s = p)"

fun split_on :: "char \<Rightarrow> string \<Rightarrow> string list" where
  "split_on d [] = [[]]"
| "split_on d (c # cs) =
     (if c = d then [] # split_on d cs
      else (case split_on d cs of
              [] \<Rightarrow> [[c]]
            | s # ss \<Rightarrow> (c # s) # ss))"

section \<open>Text read from files\<close>

text \<open>
  A file holds bytes; \<^verbatim>\<open>read_text(encoding="utf-8")\<close> decodes them into a \<^verbatim>\<open>str\<close>, here
  the list of its code points. The decoder is strict: it refuses a stray or missing
  continuation byte, an overlong form, a surrogate and anything above U+10FFFF, and
  Python then raises \<^verbatim>\<open>UnicodeDecodeError\<close>, a \<^verbatim>\<open>ValueError\<close>.
\<close>

type_synonym str = "int list"

definition continuation :: "char \<Rightarrow> bool" where
  "continuation c = (128 \<le> (of_char c :: int) \<and> (of_char c :: int) < 192)"

definition low_bits :: "char \<Rightarrow> int" where
  "low_bits c = of_char c - 128"

fun decode_utf8 :: "string \<Rightarrow> str option" where
  "decode_utf8 [] = Some []"
| "decode_utf8 (c # cs) =
     (let b = of_char c :: int in
      if b < 128 then map_option (Cons b) (decode_utf8 cs)
      else if 194 \<le> b \<and> b < 224 then
        (case cs of
           c1 # r \<Rightarrow>
             if continuation c1 then
               map_option (Cons ((b - 192) * 64 + low_bits c1)) (decode_utf8 r)
             else None
         | _ \<Rightarrow> None)
      else if 224 \<le> b \<and> b < 240 then
        (case cs of
           c1 # c2 # r \<Rightarrow>
             (let cp = (b - 224) * 4096 + low_bits c1 * 64 + low_bits c2 in
              if continuation c1 \<and> continuation c2 \<and> 2048 \<le> cp
                 \<and> \<not> (55296 \<le> cp \<and> cp < 57344)
              then map_option (Cons cp) (decode_utf8 r)
              else None)
         | _ \<Rightarrow> None)
      else if 240 \<le> b \<and> b < 245 then
        (case cs of
           c1 # c2 # c3 # r \<Rightarrow>
             (let cp = (b - 240) * 262144 + low_bits c1 * 4096 + low_bits c2 * 64 + low_bits c3 in
              if continuation c1 \<and> continuation c2 \<and> continuation c3
                 \<and> 65536 \<le> cp \<and> cp < 1114112
              then map_option (Cons cp) (decode_utf8 r)
              else None)
         | _ \<Rightarrow> None)
      else None)"

text \<open>
  Text mode reads with universal newlines: \<^verbatim>\<open>\r\n\<close> and a lone \<^verbatim>\<open>\r\<close> both arrive as
  \<^verbatim>\<open>\n\<close>. The flag says that the character before was a \<^verbatim>\<open>\r\<close>.
\<close>

fun newlines_after :: "bool \<Rightarrow> str \<Rightarrow> str" where
  "newlines_after cr [] = []"
| "newlines_after cr (c # cs) =
     (if c = 10 \<and> cr then newlines_after False cs
      else if c = 13 then 10 # newlines_after True cs
      else c # newlines_after False cs)"

definition universal_newlines :: "str \<Rightarrow> str" where
  "universal_newlines t = newlines_after False t"

text \<open>
  \<^verbatim>\<open>str.isspace\<close> on any code point, and with it \<^verbatim>\<open>t.strip()\<close> and \<^verbatim>\<open>t.split()\<close> (no
  separator: the maximal runs of non-whitespace) on a decoded text.
\<close>

definition is_unicode_space :: "int \<Rightarrow> bool" where
  "is_unicode_space cp =
     (cp \<in> {9, 10, 11, 12, 13, 28, 29, 30, 31, 32, 133, 160, 5760, 8232, 8233, 8239, 8287, 12288}
      \<or> (8192 \<le> cp \<and> cp \<le> 8202))"

definition strip_text :: "str \<Rightarrow> str" where
  "strip_text t = rev (dropWhile is_unicode_space (rev (dropWhile is_unicode_space t)))"

fun split_text_acc :: "str \<Rightarrow> str \<Rightarrow> str list" where
  "split_text_acc cur [] = (if cur = [] then [] else [rev cur])"
| "split_text_acc cur (c # cs) =
     (if is_unicode_space c then
        (if cur = [] then split_text_acc [] cs else rev cur # split_text_acc [] cs)
      else split_text_acc (c # cur) cs)"

definition split_text :: "str \<Rightarrow> str list" where
  "split_text t = split_text_acc [] t"

text \<open>
  A text as the handlers hand it on: a hex digest, all ASCII, read as text; and a text
  shown in a JSON payload, by the bytes of its UTF-8 encoding.
\<close>

definition text_of :: "string \<Rightarrow> str" where
  "text_of s = map of_char s"

definition encode_code_point :: "int \<Rightarrow> string" where
  "encode_code_point cp =
     (if cp < 128 then [char_of cp]
      else if cp < 2048 then [char_of (192 + cp div 64), char_of (128 + cp mod 64)]
      else if cp < 65536 then
        [char_of (224 + cp div 4096), char_of (128 + cp div 64 mod 64), char_of (128 + cp mod 64)]
      else
        [char_of (240 + cp div 262144), char_of (128 + cp div 4096 mod 64),
         char_of (128 + cp div 64 mod 64), char_of (128 + cp mod 64)])"

definition encode_utf8 :: "str \<Rightarrow> string" where
  "encode_utf8 t = concat (map encode_code_point t)"

section \<open>Failures and responses\<close>

text \<open>
  The exception classes the handlers raise or catch, each with its message.
  \<^verbatim>\<open>AuthError\<close> is declared in \<^verbatim>\<open>api.py\<close>; \<^verbatim>\<open>ProjectionError\<close>, \<^verbatim>\<open>SandboxViolation\<close> are
  imported; \<^verbatim>\<open>ValueError\<close>, \<^verbatim>\<open>IndexError\<close> and \<^verbatim>\<open>OSError\<close> are Python's own.
  \<^verbatim>\<open>IntegrityViolation\<close> is the failure of the corpus hash check, named as the
  specification names it (its class is declared in \<^verbatim>\<open>core.py\<close>).
\<close>

datatype exn =
    AuthError string
  | ValueError string
  | ProjectionError string
  | SandboxViolation string
  | IntegrityViolation string
  | IndexError string
  | OSError string

fun message :: "exn \<Rightarrow> string" where
  "message (AuthError m) = m"
| "message (ValueError m) = m"
| "message (ProjectionError m) = m"
| "message (SandboxViolation m) = m"
| "message (IntegrityViolation m) = m"
| "message (IndexError m) = m"
| "message (OSError m) = m"

text \<open>\<^verbatim>\<open>_json_response(handler, status, payload)\<close>: the status line and the JSON body.\<close>

record response =
  status :: nat
  payload :: json

definition json_response :: "nat \<Rightarrow> json \<Rightarrow> response" where
  "json_response st p = \<lparr>status = st, payload = p\<rparr>"

definition error_response :: "nat \<Rightarrow> string \<Rightarrow> string \<Rightarrow> response" where
  "error_response st kind msg =
     json_response st (JDict [(''error'', JStr kind), (''message'', JStr msg)])"

section \<open>Requests\<close>

text \<open>
  What a handler reads of a request: the \<^verbatim>\<open>Authorization\<close> header, the path component
  \<^verbatim>\<open>urlparse(self.path).path\<close>, and the body as \<^verbatim>\<open>_read_json\<close> sees it: nothing to read,
  bytes that \<^verbatim>\<open>json.loads\<close> refuses with a \<^verbatim>\<open>ValueError\<close>, or a decoded document.
\<close>

datatype body = NoBody | Undecodable string | Document json

record request =
  authorization :: "string option"
  url_path :: string
  content :: body

fun read_json :: "request \<Rightarrow> exn + json" where
  "read_json r =
     (case content r of
        NoBody \<Rightarrow> Inr JNull
      | Undecodable m \<Rightarrow> Inl (ValueError m)
      | Document j \<Rightarrow> Inr j)"

definition bearer_token :: "request \<Rightarrow> string option" where
  "bearer_token r =
     (case authorization r of
        None \<Rightarrow> None
      | Some auth \<Rightarrow>
          if auth = [] then None
          else if \<not> startswith auth ''Bearer '' then None
          else (let t = strip (drop (length ''Bearer '') auth)
                in if t = [] then None else Some t))"

section \<open>Configuration and authentication\<close>

text \<open>
  A path is the list of its components below the root; \<^verbatim>\<open>tokens\<close> is the dict
  principal \<open>\<rightarrow>\<close> secret in insertion order.
\<close>

type_synonym path = "string list"

record ApiConfig =
  core_path :: path
  core_hash_path :: path
  data_dir :: path
  tokens :: "(string \<times> string) list"

record ApiState =
  config :: ApiConfig

definition authenticate :: "ApiState \<Rightarrow> request \<Rightarrow> exn + string" where
  "authenticate st r =
     (case bearer_token r of
        None \<Rightarrow> Inl (AuthError ''Missing Authorization: Bearer <token>'')
      | Some token \<Rightarrow>
          (case find (\<lambda>(who, t). t = token) (tokens (config st)) of
             Some (who, t) \<Rightarrow> Inr who
           | None \<Rightarrow> Inl (AuthError ''Invalid token'')))"

section \<open>Paths and the filesystem\<close>

text \<open>
  \<^verbatim>\<open>p / s\<close> of \<^verbatim>\<open>pathlib\<close>: the components of \<^verbatim>\<open>s\<close> are appended, empty and \<^verbatim>\<open>.\<close>
  components are dropped, and an absolute \<^verbatim>\<open>s\<close> replaces \<^verbatim>\<open>p\<close>. \<^verbatim>\<open>..\<close> is kept until
  \<^verbatim>\<open>resolve()\<close>, which removes it together with the component before it. The
  filesystem modelled here has directories and regular files and no symbolic links, so
  \<^verbatim>\<open>resolve()\<close> of an absolute path is this normalisation.
\<close>

definition path_parts :: "string \<Rightarrow> path" where
  "path_parts s = filter (\<lambda>c. c \<noteq> [] \<and> c \<noteq> ''.'') (split_on CHR ''/'' s)"

definition joinpath :: "path \<Rightarrow> string \<Rightarrow> path" where
  "joinpath p s = (if startswith s ''/'' then path_parts s else p @ path_parts s)"

definition parent :: "path \<Rightarrow> path" where
  "parent p = butlast p"

fun resolve_acc :: "path \<Rightarrow> path \<Rightarrow> path" where
  "resolve_acc acc [] = acc"
| "resolve_acc acc (c # cs) =
     (if c = ''..'' then resolve_acc (butlast acc) cs else resolve_acc (acc @ [c]) cs)"

definition resolve :: "path \<Rightarrow> path" where
  "resolve p = resolve_acc [] p"

text \<open>
  The filesystem is a table from absolute paths to nodes, in the order the nodes were
  created (the order a directory listing reports them); the root is always a directory.
  A file holds its bytes; the log lines the handler writes are ASCII, as \<^verbatim>\<open>json.dumps\<close>
  emits them, so writing them as UTF-8 leaves them as they are. Failures of the device
  itself (a full disk, missing permissions) are outside the model.
\<close>

datatype node = Dir | File string

type_synonym filesystem = "(path \<times> node) list"

definition lookup :: "filesystem \<Rightarrow> path \<Rightarrow> node option" where
  "lookup fs p = (if p = [] then Some Dir else map_of fs p)"

fun is_file :: "node option \<Rightarrow> bool" where
  "is_file (Some (File _)) = True"
| "is_file _ = False"

text \<open>\<^verbatim>\<open>p.read_bytes()\<close> and \<^verbatim>\<open>p.read_text(encoding="utf-8")\<close>.\<close>

definition read_bytes :: "filesystem \<Rightarrow> path \<Rightarrow> exn + string" where
  "read_bytes fs p =
     (case lookup fs p of
        Some (File c) \<Rightarrow> Inr c
      | Some Dir \<Rightarrow> Inl (OSError ''Is a directory'')
      | None \<Rightarrow> Inl (OSError ''No such file or directory''))"

definition read_text :: "filesystem \<Rightarrow> path \<Rightarrow> exn + str" where
  "read_text fs p =
     (case read_bytes fs p of
        Inl e \<Rightarrow> Inl e
      | Inr bytes \<Rightarrow>
          (case decode_utf8 bytes of
             None \<Rightarrow> Inl (ValueError ''utf-8 codec cannot decode the file'')
           | Some t \<Rightarrow> Inr (universal_newlines t)))"

text \<open>
  \<^verbatim>\<open>p.mkdir(parents=True, exist_ok=True)\<close>: fails, creating nothing, when \<^verbatim>\<open>p\<close> or one
  of its ancestors is a regular file; otherwise every missing ancestor and \<^verbatim>\<open>p\<close> itself
  become directories.
\<close>

definition prefixes_of :: "path \<Rightarrow> path list" where
  "prefixes_of p = map (\<lambda>n. take n p) [1 ..< Suc (length p)]"

fun make_dirs :: "filesystem \<Rightarrow> path list \<Rightarrow> filesystem" where
  "make_dirs fs [] = fs"
| "make_dirs fs (q # qs) =
     make_dirs (if lookup fs q = None then AList.update q Dir fs else fs) qs"

definition mkdir_parents :: "filesystem \<Rightarrow> path \<Rightarrow> exn + filesystem" where
  "mkdir_parents fs p =
     (if list_ex (\<lambda>q. is_file (lookup fs q)) (prefixes_of (parent p)) then
        Inl (OSError ''Not a directory'')
      else if is_file (lookup fs p) then Inl (OSError ''File exists'')
      else Inr (make_dirs fs (prefixes_of p)))"

text \<open>
  \<^verbatim>\<open>p.open("a")\<close> creates the file when it is absent and keeps its bytes otherwise; each
  \<^verbatim>\<open>f.write\<close> then adds at the end. Leaving the \<^verbatim>\<open>with\<close> block closes the file on every
  exit, an exception included, so whatever was written before the exit is in the file.
\<close>

definition open_append :: "filesystem \<Rightarrow> path \<Rightarrow> exn + filesystem" where
  "open_append fs p =
     (case lookup fs p of
        Some Dir \<Rightarrow> Inl (OSError ''Is a directory'')
      | Some (File c) \<Rightarrow> Inr fs
      | None \<Rightarrow>
          if lookup fs (parent p) = Some Dir then Inr (AList.update p (File []) fs)
          else Inl (OSError ''No such file or directory''))"

definition file_append :: "filesystem \<Rightarrow> path \<Rightarrow> string \<Rightarrow> filesystem" where
  "file_append fs p text =
     (case lookup fs p of
        Some (File c) \<Rightarrow> AList.update p (File (c @ text)) fs
      | _ \<Rightarrow> fs)"

section \<open>The sandbox of an agent\<close>

text \<open>
  \<^verbatim>\<open>SandboxFS\<close> is constructed by keyword from its two fields. Its write guard
  \<^verbatim>\<open>_ensure_write_allowed\<close> lives in \<^verbatim>\<open>safefs.py\<close>; the handlers are modelled for any
  guard: given the filesystem, the sandbox and the resolved target it either lets the
  write pass (\<open>None\<close>) or raises \<^verbatim>\<open>SandboxViolation\<close> with a message. The JSON encoder
  \<^verbatim>\<open>json.dumps(_, sort_keys=True, separators=(",", ":"))\<close>, the SHA-256 digest and the
  line decoders of the two readers are the remaining collaborators.
\<close>

record SandboxFS =
  allowed_root :: path
  deny_roots :: "path list"

record deps =
  ensure_write_allowed :: "filesystem \<Rightarrow> SandboxFS \<Rightarrow> path \<Rightarrow> string option"
  dumps :: "json \<Rightarrow> string"
  sha256_hex :: "string \<Rightarrow> string"
  parse_record :: "string \<Rightarrow> json"
  parse_entry :: "string \<Rightarrow> json option"

text \<open>
  Modelled from the spec: \<^verbatim>\<open>PathGuard.authorize_write\<close>, the guard that
  \<^verbatim>\<open>SandboxFS._ensure_write_allowed\<close> of \<^verbatim>\<open>safefs.py\<close> (not among the sources) is
  specified to be. It resolves the candidate to its canonical path, then "(1) reject if
  the canonical path is not equal to, or a descendant of, allowed_root; (2) reject if
  the canonical path is equal to, or a descendant of, any path in deny_roots"; the roots
  are compared as the directories they name. It serves as one instance of the guard.
\<close>

definition within :: "path \<Rightarrow> path \<Rightarrow> bool" where
  "within p root = (take (length root) p = root)"

definition authorize_write :: "filesystem \<Rightarrow> SandboxFS \<Rightarrow> path \<Rightarrow> string option" where
  "authorize_write fs sfs candidate =
     (let canonical = resolve candidate in
      if \<not> within canonical (resolve (allowed_root sfs)) then
        Some ''write outside the allowed root''
      else if list_ex (\<lambda>deny. within canonical (resolve deny)) (deny_roots sfs) then
        Some ''write inside a denied root''
      else None)"

definition agents_root :: "ApiState \<Rightarrow> path" where
  "agents_root st = joinpath (data_dir (config st)) ''agents''"

definition agent_fs :: "ApiState \<Rightarrow> string \<Rightarrow> SandboxFS" where
  "agent_fs st agent_id =
     \<lparr>allowed_root = joinpath (agents_root st) agent_id,
      deny_roots = [parent (core_path (config st)), agents_root st]\<rparr>"

section \<open>Submitting observations\<close>

definition newline :: char where
  "newline = CHR 0x0A"

definition missing_projection :: string where
  "missing_projection = ''Entry missing dict '' @ [CHR 0x27] @ ''projection'' @ [CHR 0x27]"

text \<open>
  The two checks the loop of \<^verbatim>\<open>do_POST\<close> makes on an entry before it writes it: the
  exception raised, or \<open>None\<close> when the entry passes.
\<close>

definition check_entry :: "json \<Rightarrow> exn option" where
  "check_entry entry =
     (if \<not> is_dict entry then Some (ValueError ''Each entry must be a JSON object'')
      else if \<not> is_dict (dict_get entry ''projection'') then
        Some (ProjectionError missing_projection)
      else None)"

text \<open>
  The loop itself, with the text written to the open file so far: each entry is
  checked and, when it passes, written at once as one line.
\<close>

fun write_entries :: "(json \<Rightarrow> string) \<Rightarrow> json list \<Rightarrow> string \<Rightarrow> exn option \<times> string" where
  "write_entries enc [] out = (None, out)"
| "write_entries enc (entry # rest) out =
     (case check_entry entry of
        Some e \<Rightarrow> (Some e, out)
      | None \<Rightarrow> write_entries enc rest (out @ enc entry @ [newline]))"

definition out_path_of :: "SandboxFS \<Rightarrow> path" where
  "out_path_of sfs = resolve (joinpath (allowed_root sfs) ''entries.jsonl'')"

text \<open>
  The write path of \<^verbatim>\<open>do_POST\<close>, from \<^verbatim>\<open>fs = state.agent_fs(agent_id)\<close> to the 201
  response. The result is what the \<^verbatim>\<open>try\<close> block yields (an exception or a response)
  and the filesystem it leaves.
\<close>

definition append_entries ::
  "deps \<Rightarrow> ApiState \<Rightarrow> filesystem \<Rightarrow> string \<Rightarrow> json list \<Rightarrow> (exn + response) \<times> filesystem" where
  "append_entries d st fs agent_id entries =
     (let sfs = agent_fs st agent_id;
          out_path = out_path_of sfs
      in case ensure_write_allowed d fs sfs out_path of
           Some m \<Rightarrow> (Inl (SandboxViolation m), fs)
         | None \<Rightarrow>
             (case mkdir_parents fs (parent out_path) of
                Inl e \<Rightarrow> (Inl e, fs)
              | Inr fs1 \<Rightarrow>
                  (case open_append fs1 out_path of
                     Inl e \<Rightarrow> (Inl e, fs1)
                   | Inr fs2 \<Rightarrow>
                       (case write_entries (dumps d) entries [] of
                          (Some e, out) \<Rightarrow> (Inl e, file_append fs2 out_path out)
                        | (None, out) \<Rightarrow>
                            (Inr (json_response 201
                                    (JDict [(''ok'', JBool True),
                                            (''written'', JInt (int (length entries)))])),
                             file_append fs2 out_path out)))))"

text \<open>
  "Accept either a single entry or a list of entries": the entries of a body, or
  \<open>None\<close> for a body that is neither a list nor an object.
\<close>

fun entries_of :: "json \<Rightarrow> json list option" where
  "entries_of (JList entries) = Some entries"
| "entries_of (JDict kvs) = Some [JDict kvs]"
| "entries_of _ = None"

definition route_parts :: "request \<Rightarrow> string list" where
  "route_parts r = filter (\<lambda>p. p \<noteq> []) (split_on CHR ''/'' (rstrip_slash (url_path r)))"

definition is_entries_route :: "string list \<Rightarrow> bool" where
  "is_entries_route parts =
     (length parts = 4 \<and> parts ! 0 = ''v1'' \<and> parts ! 1 = ''agents'' \<and> parts ! 3 = ''entries'')"

definition do_POST_try ::
  "deps \<Rightarrow> ApiState \<Rightarrow> filesystem \<Rightarrow> request \<Rightarrow> (exn + response) \<times> filesystem" where
  "do_POST_try d st fs r =
     (case authenticate st r of
        Inl e \<Rightarrow> (Inl e, fs)
      | Inr who \<Rightarrow>
          (let parts = route_parts r in
           if is_entries_route parts then
             (let agent_id = parts ! 2 in
              if who \<noteq> agent_id then
                (Inl (AuthError ''Token not authorized for this agent namespace''), fs)
              else
                (case read_json r of
                   Inl e \<Rightarrow> (Inl e, fs)
                 | Inr body \<Rightarrow>
                     if body = JNull then
                       (Inr (error_response 400 ''bad_request'' ''Missing JSON body''), fs)
                     else
                       (case entries_of body of
                          Some entries \<Rightarrow> append_entries d st fs agent_id entries
                        | None \<Rightarrow>
                            (Inr (error_response 400 ''bad_request''
                                    ''Body must be object or list''), fs))))
           else (Inr (json_response 404 (JDict [(''error'', JStr ''not_found'')])), fs)))"

text \<open>The \<^verbatim>\<open>except\<close> clauses of \<^verbatim>\<open>do_POST\<close>, in their order.\<close>

fun post_except :: "exn \<Rightarrow> response" where
  "post_except (AuthError m) = error_response 401 ''unauthorized'' m"
| "post_except (SandboxViolation m) = error_response 400 ''bad_request'' m"
| "post_except (ProjectionError m) = error_response 400 ''bad_request'' m"
| "post_except (ValueError m) = error_response 400 ''bad_request'' m"
| "post_except e = error_response 500 ''server_error'' (message e)"

definition do_POST :: "deps \<Rightarrow> ApiState \<Rightarrow> filesystem \<Rightarrow> request \<Rightarrow> response \<times> filesystem" where
  "do_POST d st fs r =
     (case do_POST_try d st fs r of
        (Inl e, fs') \<Rightarrow> (post_except e, fs')
      | (Inr resp, fs') \<Rightarrow> (resp, fs'))"

section \<open>The shared corpus\<close>

text \<open>
  \<^verbatim>\<open>ApiState.expected_core_sha256\<close>: the companion file is read as UTF-8 text, and the
  expected hash is its first whitespace-separated word; \<^verbatim>\<open>[0]\<close> of an empty list raises
  \<^verbatim>\<open>IndexError\<close>.
\<close>

definition expected_core_sha256 :: "ApiState \<Rightarrow> filesystem \<Rightarrow> exn + str" where
  "expected_core_sha256 st fs =
     (case read_text fs (core_hash_path (config st)) of
        Inl e \<Rightarrow> Inl e
      | Inr t \<Rightarrow>
          (case split_text (strip_text t) of
             [] \<Rightarrow> Inl (IndexError ''list index out of range'')
           | w # ws \<Rightarrow> Inr w))"

record CoreDataset =
  path :: path
  expected_sha256 :: str

definition core_dataset :: "ApiState \<Rightarrow> filesystem \<Rightarrow> exn + CoreDataset" where
  "core_dataset st fs =
     (case expected_core_sha256 st fs of
        Inl e \<Rightarrow> Inl e
      | Inr h \<Rightarrow> Inr \<lparr>path = core_path (config st), expected_sha256 = h\<rparr>)"

text \<open>
  Modelled from the spec: \<^verbatim>\<open>compute_file_sha256\<close> of \<^verbatim>\<open>core.py\<close>, which is not among the
  sources. It is the content hash "over the corpus file's raw bytes", as a hex string.
\<close>

definition compute_file_sha256 :: "deps \<Rightarrow> filesystem \<Rightarrow> path \<Rightarrow> exn + string" where
  "compute_file_sha256 d fs p =
     (case read_bytes fs p of
        Inl e \<Rightarrow> Inl e
      | Inr bytes \<Rightarrow> Inr (sha256_hex d bytes))"

text \<open>
  Modelled from the spec: \<^verbatim>\<open>CoreDataset.verify_immutable\<close> of \<^verbatim>\<open>core.py\<close>, which is not
  among the sources. It "recomputes a cryptographic content hash over the corpus file's
  raw bytes and compares it, as a case-sensitive lowercase hex string, against an
  expected hash"; "any mismatch [...] is reported as IntegrityViolation".
\<close>

definition verify_immutable :: "deps \<Rightarrow> filesystem \<Rightarrow> CoreDataset \<Rightarrow> exn + unit" where
  "verify_immutable d fs core =
     (case compute_file_sha256 d fs (path core) of
        Inl e \<Rightarrow> Inl e
      | Inr actual \<Rightarrow>
          if text_of actual \<noteq> expected_sha256 core then
            Inl (IntegrityViolation ''core hash mismatch'')
          else Inr ())"

text \<open>
  Modelled from the spec: \<^verbatim>\<open>CoreDataset.load\<close> of \<^verbatim>\<open>core.py\<close>, which is not among the
  sources. It "parses the file as one structured record per line (blank lines skipped)";
  its contract \<^verbatim>\<open>load() -> sequence of CoreRecord\<close> names no failure of its own, so the
  record decoder is a total function.
\<close>

definition load :: "deps \<Rightarrow> filesystem \<Rightarrow> CoreDataset \<Rightarrow> exn + json list" where
  "load d fs core =
     (case read_bytes fs (path core) of
        Inl e \<Rightarrow> Inl e
      | Inr t \<Rightarrow>
          Inr (map (parse_record d) (filter (\<lambda>l. strip l \<noteq> []) (split_on newline t))))"

section \<open>The aggregated view\<close>

text \<open>
  Modelled from the spec: the line reader of \<^verbatim>\<open>Aggregator.aggregate\<close>
  (\<^verbatim>\<open>aggregate.py\<close>, not among the sources), which "reads each file's fully-written
  lines only (a line without a trailing terminator at end-of-file is treated as
  not-yet-complete and excluded)".
\<close>

fun lines_acc :: "string \<Rightarrow> string \<Rightarrow> string list" where
  "lines_acc cur [] = []"
| "lines_acc cur (c # cs) =
     (if c = newline then rev cur # lines_acc [] cs else lines_acc (c # cur) cs)"

definition complete_lines :: "string \<Rightarrow> string list" where
  "complete_lines s = lines_acc [] s"

text \<open>
  Modelled from the spec: the namespace the aggregator tags an entry with. A log is
  "one per existing namespace directory", so the namespace of a log is the name of the
  directory that holds it; a malformed line is skipped, the others are parsed.
\<close>

definition namespace_of :: "path \<Rightarrow> string" where
  "namespace_of p = (case rev p of f # dir # up \<Rightarrow> dir | _ \<Rightarrow> [])"

definition log_entries :: "deps \<Rightarrow> filesystem \<Rightarrow> path \<Rightarrow> (string \<times> json) list" where
  "log_entries d fs p =
     (case lookup fs p of
        Some (File c) \<Rightarrow>
          map (\<lambda>e. (namespace_of p, e)) (List.map_filter (parse_entry d) (complete_lines c))
      | _ \<Rightarrow> [])"

text \<open>
  Modelled from the spec: \<^verbatim>\<open>Aggregator.aggregate\<close> of \<^verbatim>\<open>aggregate.py\<close>, which is not
  among the sources. It "reads each file's fully-written lines only", "parses each as
  an Entry", skips malformed lines one by one, and concatenates "in namespace-directory
  traversal order then file order" into a sequence of (namespace, entry) pairs.
\<close>

definition aggregate :: "deps \<Rightarrow> filesystem \<Rightarrow> path list \<Rightarrow> (string \<times> json) list" where
  "aggregate d fs entry_paths = concat (map (log_entries d fs) entry_paths)"

text \<open>
  The discovery loop of \<^verbatim>\<open>do_GET\<close>: every \<^verbatim>\<open>entries.jsonl\<close> that is a regular file
  directly inside a child of the agents directory. \<^verbatim>\<open>iterdir()\<close> of something that is
  not a directory raises.
\<close>

definition iterdir :: "filesystem \<Rightarrow> path \<Rightarrow> path list" where
  "iterdir fs dir = filter (\<lambda>p. p \<noteq> [] \<and> parent p = dir) (map fst fs)"

definition entry_paths_of :: "ApiState \<Rightarrow> filesystem \<Rightarrow> exn + path list" where
  "entry_paths_of st fs =
     (case lookup fs (agents_root st) of
        None \<Rightarrow> Inr []
      | Some (File c) \<Rightarrow> Inl (OSError ''Not a directory'')
      | Some Dir \<Rightarrow>
          Inr (filter (\<lambda>p. is_file (lookup fs p))
                 (map (\<lambda>agent_dir. joinpath agent_dir ''entries.jsonl'')
                    (iterdir fs (agents_root st)))))"

definition encode_view :: "(string \<times> json) list \<Rightarrow> json" where
  "encode_view out = JList (map (\<lambda>(ns, e). JList [JStr ns, e]) out)"

section \<open>Reading\<close>

definition do_GET_try :: "deps \<Rightarrow> ApiState \<Rightarrow> filesystem \<Rightarrow> request \<Rightarrow> exn + response" where
  "do_GET_try d st fs r =
     (case authenticate st r of
        Inl e \<Rightarrow> Inl e
      | Inr who \<Rightarrow>
          (let p = rstrip_slash (url_path r) in
           if p = ''/v1/health'' then Inr (json_response 200 (JDict [(''ok'', JBool True)]))
           else if p = ''/v1/core/hash'' then
             (case expected_core_sha256 st fs of
                Inl e \<Rightarrow> Inl e
              | Inr expected \<Rightarrow>
                  (case compute_file_sha256 d fs (core_path (config st)) of
                     Inl e \<Rightarrow> Inl e
                   | Inr actual \<Rightarrow>
                       Inr (json_response 200
                              (JDict [(''expected_sha256'', JStr (encode_utf8 expected)),
                                      (''actual_sha256'', JStr actual),
                                      (''matches'', JBool (expected = text_of actual))]))))
           else if p = ''/v1/core/records'' then
             (case core_dataset st fs of
                Inl e \<Rightarrow> Inl e
              | Inr core \<Rightarrow>
                  (case verify_immutable d fs core of
                     Inl e \<Rightarrow> Inl e
                   | Inr u \<Rightarrow>
                       (case load d fs core of
                          Inl e \<Rightarrow> Inl e
                        | Inr records \<Rightarrow>
                            Inr (json_response 200 (JDict [(''records'', JList records)])))))
           else if p = ''/v1/aggregate'' then
             (case entry_paths_of st fs of
                Inl e \<Rightarrow> Inl e
              | Inr entry_paths \<Rightarrow>
                  (let out = aggregate d fs entry_paths in
                   Inr (json_response 200
                          (JDict [(''entries'', encode_view out),
                                  (''count'', JInt (int (length out)))]))))
           else Inr (json_response 404 (JDict [(''error'', JStr ''not_found'')]))))"

text \<open>The \<^verbatim>\<open>except\<close> clauses of \<^verbatim>\<open>do_GET\<close>.\<close>

fun get_except :: "exn \<Rightarrow> response" where
  "get_except (AuthError m) = error_response 401 ''unauthorized'' m"
| "get_except e = error_response 500 ''server_error'' (message e)"

definition do_GET :: "deps \<Rightarrow> ApiState \<Rightarrow> filesystem \<Rightarrow> request \<Rightarrow> response" where
  "do_GET d st fs r =
     (case do_GET_try d st fs r of
        Inl e \<Rightarrow> get_except e
      | Inr resp \<Rightarrow> resp)"

section \<open>Start-up configuration\<close>

text \<open>
  \<^verbatim>\<open>ApiConfig.from_env\<close> places the corpus below the repository root, and \<^verbatim>\<open>main\<close>
  defaults the data directory to \<^verbatim>\<open>isolation_proof/out/api\<close> below the same root; the
  token table is the JSON object of \<^verbatim>\<open>ISOLATION_PROOF_TOKENS\<close>.
\<close>

definition from_env :: "path \<Rightarrow> path \<Rightarrow> (string \<times> string) list \<Rightarrow> ApiConfig" where
  "from_env repo_root dir toks =
     \<lparr>core_path =
        joinpath (joinpath (joinpath repo_root ''isolation_proof'') ''core'') ''core.jsonl'',
      core_hash_path =
        joinpath (joinpath (joinpath repo_root ''isolation_proof'') ''core'') ''core.sha256'',
      data_dir = dir,
      tokens = toks\<rparr>"

definition default_data_dir :: "path \<Rightarrow> path" where
  "default_data_dir repo_root =
     joinpath (joinpath (joinpath repo_root ''isolation_proof'') ''out'') ''api''"

section \<open>Properties of sandboxes and logs\<close>

text \<open>
  One directory is within another when it is that directory or lies below it. Two paths
  are related when, with \<^verbatim>\<open>..\<close> resolved, the directory of one is within the directory of
  the other; a sandbox keeps its roots apart when its allowed root is related to none of
  its deny roots.
\<close>

definition related :: "path \<Rightarrow> path \<Rightarrow> bool" where
  "related p q = (within (resolve p) (resolve q) \<or> within (resolve q) (resolve p))"

definition roots_disjoint :: "SandboxFS \<Rightarrow> bool" where
  "roots_disjoint sfs = list_all (\<lambda>deny. \<not> related (allowed_root sfs) deny) (deny_roots sfs)"

text \<open>The log of a namespace and the text it holds (nothing when there is no such file).\<close>

definition log_path :: "ApiState \<Rightarrow> string \<Rightarrow> path" where
  "log_path st agent_id = out_path_of (agent_fs st agent_id)"

definition log_text :: "filesystem \<Rightarrow> path \<Rightarrow> string" where
  "log_text fs p = (case lookup fs p of Some (File c) \<Rightarrow> c | _ \<Rightarrow> [])"

definition entry_line :: "deps \<Rightarrow> json \<Rightarrow> string" where
  "entry_line d entry = dumps d entry @ [newline]"

text \<open>
  A request reaches the write loop of \<^verbatim>\<open>do_POST\<close> when it authenticates as the namespace
  of its route, the guard admits the log of that namespace, and the directories and the
  log can be created or opened.
\<close>

definition reaches_write_loop :: "deps \<Rightarrow> ApiState \<Rightarrow> filesystem \<Rightarrow> request \<Rightarrow> bool" where
  "reaches_write_loop d st fs r =
     (let agent_id = route_parts r ! 2 in
      authenticate st r = Inr agent_id \<and> is_entries_route (route_parts r)
      \<and> ensure_write_allowed d fs (agent_fs st agent_id) (log_path st agent_id) = None
      \<and> (case mkdir_parents fs (parent (log_path st agent_id)) of
            Inl e \<Rightarrow> False
          | Inr fs1 \<Rightarrow>
              (case open_append fs1 (log_path st agent_id) of
                 Inl e \<Rightarrow> False
               | Inr fs2 \<Rightarrow> True)))"

text \<open>
  A table is well formed when no path occurs twice and everything in it sits in a
  directory; a log is terminated when it is empty or ends in a newline.
\<close>

definition well_formed :: "filesystem \<Rightarrow> bool" where
  "well_formed fs =
     (distinct (map fst fs) \<and> list_all (\<lambda>p. lookup fs (parent p) = Some Dir) (map fst fs))"

definition terminated :: "string \<Rightarrow> bool" where
  "terminated s = (s = [] \<or> last s = newline)"


section \<open>A concrete instance\<close>

text \<open>
  The compact, key-sorted, ASCII-only encoding that
  \<^verbatim>\<open>json.dumps(_, sort_keys=True, separators=(",", ":"))\<close> produces.
\<close>

fun digits :: "nat \<Rightarrow> string" where
  "digits n =
     (if n < 10 then [char_of (48 + n)] else digits (n div 10) @ [char_of (48 + n mod 10)])"

definition hex_digit :: "nat \<Rightarrow> char" where
  "hex_digit n = (if n < 10 then char_of (48 + n) else char_of (87 + n))"

definition escape_char :: "char \<Rightarrow> string" where
  "escape_char c =
     (if c = CHR 0x22 then [CHR 0x5C, CHR 0x22]
      else if c = CHR 0x5C then [CHR 0x5C, CHR 0x5C]
      else if c = CHR 0x0A then [CHR 0x5C, CHR ''n'']
      else if c = CHR 0x0D then [CHR 0x5C, CHR ''r'']
      else if c = CHR 0x09 then [CHR 0x5C, CHR ''t'']
      else if c = CHR 0x08 then [CHR 0x5C, CHR ''b'']
      else if c = CHR 0x0C then [CHR 0x5C, CHR ''f'']
      else if (of_char c :: nat) < 32 \<or> 127 < (of_char c :: nat) then
        [CHR 0x5C, CHR ''u'', CHR ''0'', CHR ''0'',
         hex_digit (of_char c div 16), hex_digit (of_char c mod 16)]
      else [c])"

definition quoted :: "string \<Rightarrow> string" where
  "quoted s = [CHR 0x22] @ concat (map escape_char s) @ [CHR 0x22]"

fun intercalate :: "string \<Rightarrow> string list \<Rightarrow> string" where
  "intercalate sep [] = []"
| "intercalate sep [x] = x"
| "intercalate sep (x # y # ys) = x @ sep @ intercalate sep (y # ys)"

fun encode :: "json \<Rightarrow> string" where
  "encode JNull = ''null''"
| "encode (JBool b) = (if b then ''true'' else ''false'')"
| "encode (JInt i) = (if i < 0 then CHR ''-'' # digits (nat (- i)) else digits (nat i))"
| "encode (JStr s) = quoted s"
| "encode (JList xs) = ''['' @ intercalate '','' (map encode xs) @ '']''"
| "encode (JDict kvs) =
     ''{'' @ intercalate '','' (map (\<lambda>(k, v). quoted k @ '':'' @ encode v) (sort_key fst kvs))
     @ ''}''"

text \<open>
  A guard that lets a write pass exactly when the target is the allowed root or lies
  below it, a decoder that knows the encodings of a few entries, and a stand-in digest.
\<close>

definition sample_guard :: "filesystem \<Rightarrow> SandboxFS \<Rightarrow> path \<Rightarrow> string option" where
  "sample_guard fs sfs p =
     (if take (length (resolve (allowed_root sfs))) p = resolve (allowed_root sfs) then None
      else Some ''write outside the allowed root'')"

definition entry_s3 :: json where
  "entry_s3 = JDict [(''projection'', JDict [(''state'', JStr ''S3'')])]"

definition entry_s9 :: json where
  "entry_s9 = JDict [(''projection'', JDict [(''state'', JStr ''S9'')])]"

definition sample_parse_entry :: "string \<Rightarrow> json option" where
  "sample_parse_entry l = find (\<lambda>e. encode e = l) [entry_s3, entry_s9]"

definition sample_digest :: "string \<Rightarrow> string" where
  "sample_digest bytes = digits (sum_list (map of_char bytes))"

definition sample_deps :: deps where
  "sample_deps =
     \<lparr>ensure_write_allowed = sample_guard,
      dumps = encode,
      sha256_hex = sample_digest,
      parse_record = JStr,
      parse_entry = sample_parse_entry\<rparr>"

definition sample_state :: ApiState where
  "sample_state =
     \<lparr>config = from_env [''srv''] (default_data_dir [''srv''])
                 [(''alpha'', ''token-a''), (''beta'', ''token-b'')]\<rparr>"

text \<open>
  The same collaborators with the guard of the specification, and a token table that
  also binds a secret to the principal \<^verbatim>\<open>..\<close>.
\<close>

definition guarded_deps :: deps where
  "guarded_deps = sample_deps\<lparr>ensure_write_allowed := authorize_write\<rparr>"

definition dotdot_state :: ApiState where
  "dotdot_state =
     \<lparr>config = from_env [''srv''] (default_data_dir [''srv''])
                 [(''alpha'', ''token-a''), (''..'', ''token-up'')]\<rparr>"

definition sample_request :: "string \<Rightarrow> string \<Rightarrow> body \<Rightarrow> request" where
  "sample_request auth p b = \<lparr>authorization = Some auth, url_path = p, content = b\<rparr>"

text \<open>
  A filesystem for the examples: the corpus \<^verbatim>\<open>core.jsonl\<close> with two records and a blank
  line between them, its companion hash file, and the namespace of \<^verbatim>\<open>alpha\<close> with one
  entry in its log.
\<close>

definition sample_corpus :: string where
  "sample_corpus = ''r1'' @ [newline] @ [newline] @ ''r2'' @ [newline]"

definition sample_fs :: filesystem where
  "sample_fs =
     [([''srv''], Dir),
      ([''srv'', ''isolation_proof''], Dir),
      ([''srv'', ''isolation_proof'', ''core''], Dir),
      ([''srv'', ''isolation_proof'', ''core'', ''core.jsonl''], File sample_corpus),
      ([''srv'', ''isolation_proof'', ''core'', ''core.sha256''],
       File (sample_digest sample_corpus @ ''  core.jsonl'' @ [newline])),
      ([''srv'', ''isolation_proof'', ''out''], Dir),
      ([''srv'', ''isolation_proof'', ''out'', ''api''], Dir),
      ([''srv'', ''isolation_proof'', ''out'', ''api'', ''agents''], Dir),
      ([''srv'', ''isolation_proof'', ''out'', ''api'', ''agents'', ''alpha''], Dir),
      ([''srv'', ''isolation_proof'', ''out'', ''api'', ''agents'', ''alpha'', ''entries.jsonl''],
       File (encode entry_s3 @ [newline]))]"

text \<open>
  The same filesystem after the principal \<^verbatim>\<open>..\<close> has stored one entry: its log is
  \<^verbatim>\<open>entries.jsonl\<close> in the data directory itself.
\<close>

definition dotdot_fs :: filesystem where
  "dotdot_fs =
     sample_fs @
     [([''srv'', ''isolation_proof'', ''out'', ''api'', ''entries.jsonl''],
       File (encode entry_s9 @ [newline]))]"

section \<open>Auxiliary facts\<close>

lemma authenticate_error:
  "authenticate st r = Inl e \<Longrightarrow>
     e = AuthError ''Missing Authorization: Bearer <token>'' \<or> e = AuthError ''Invalid token''"
  by (auto simp: authenticate_def split: option.splits prod.splits)

lemma authenticate_token:
  "authenticate st r = Inr who \<Longrightarrow> \<exists>tok. bearer_token r = Some tok"
  by (auto simp: authenticate_def split: option.splits)

lemma write_entries_all_valid:
  "list_all (\<lambda>e. check_entry e = None) es \<Longrightarrow>
     write_entries enc es out = (None, out @ concat (map (\<lambda>e. enc e @ [newline]) es))"
  by (induction es arbitrary: out) auto

lemma write_entries_first_invalid:
  "list_all (\<lambda>e. check_entry e = None) pre \<Longrightarrow> check_entry bad = Some err \<Longrightarrow>
     write_entries enc (pre @ bad # rest) out =
       (Some err, out @ concat (map (\<lambda>e. enc e @ [newline]) pre))"
  by (induction pre arbitrary: out) auto

lemma write_entries_None:
  "write_entries enc es out = (None, out') \<Longrightarrow> list_all (\<lambda>e. check_entry e = None) es"
  by (induction es arbitrary: out) (auto split: option.splits)

lemma lookup_update:
  "k \<noteq> [] \<Longrightarrow> lookup (AList.update k v fs) p = (if p = k then Some v else lookup fs p)"
  by (simp add: lookup_def update_conv')

lemma lookup_make_dirs:
  "[] \<notin> set qs \<Longrightarrow>
     lookup (make_dirs fs qs) p =
       (if p \<in> set qs \<and> lookup fs p = None then Some Dir else lookup fs p)"
  by (induction qs arbitrary: fs) (auto simp: lookup_update split: if_splits)

lemma prefixes_of_nonempty: "[] \<notin> set (prefixes_of p)"
  by (auto simp: prefixes_of_def)

lemma prefixes_of_length: "q \<in> set (prefixes_of p) \<Longrightarrow> length q \<le> length p"
  by (auto simp: prefixes_of_def)

lemma resolve_acc_snoc:
  "c \<noteq> ''..'' \<Longrightarrow> resolve_acc acc (p @ [c]) = resolve_acc acc p @ [c]"
  by (induction p arbitrary: acc) auto

lemma joinpath_entries: "joinpath p ''entries.jsonl'' = p @ [''entries.jsonl'']"
  by (simp add: joinpath_def startswith_def path_parts_def)

lemma out_path_of_eq: "out_path_of sfs = resolve (allowed_root sfs) @ [''entries.jsonl'']"
  by (simp add: out_path_of_def joinpath_entries resolve_def resolve_acc_snoc)

lemma log_path_nonempty: "log_path st a \<noteq> []"
  by (simp add: log_path_def out_path_of_eq)

lemma log_text_opened:
  assumes "mkdir_parents fs (parent lp) = Inr fs1" and "open_append fs1 lp = Inr fs2"
    and "lp \<noteq> []"
  shows "log_text (file_append fs2 lp out) lp = log_text fs lp @ out"
proof -
  have fs1: "fs1 = make_dirs fs (prefixes_of (parent lp))"
    using assms(1) by (auto simp: mkdir_parents_def split: if_splits)
  have "lp \<notin> set (prefixes_of (parent lp))"
    using prefixes_of_length [of lp "parent lp"] assms(3) by (cases lp) (auto simp: parent_def)
  then have same: "lookup fs1 lp = lookup fs lp"
    by (simp add: fs1 lookup_make_dirs prefixes_of_nonempty)
  show ?thesis
  proof (cases "lookup fs1 lp")
    case None
    then have "fs2 = AList.update lp (File []) fs1"
      using assms(2) by (auto simp: open_append_def split: if_splits)
    then show ?thesis
      using None same assms(3) by (simp add: file_append_def log_text_def lookup_update)
  next
    case (Some n)
    then obtain c where n: "n = File c" and "fs2 = fs1"
      using assms(2) by (cases n) (auto simp: open_append_def)
    then show ?thesis
      using Some same assms(3) by (simp add: file_append_def log_text_def lookup_update)
  qed
qed

lemma find_secret_Some:
  "find (\<lambda>(who, t). t = tok) T = Some (p, t) \<Longrightarrow> (p, tok) \<in> set T"
  by (induction T) (auto split: if_splits)

lemma find_secret_None:
  "find (\<lambda>(who, t). t = tok) T = None \<longleftrightarrow> tok \<notin> snd ` set T"
  by (induction T) auto

lemma distinct_secret_owner:
  "distinct (map snd T) \<Longrightarrow> (p, tok) \<in> set T \<Longrightarrow> (q, tok) \<in> set T \<Longrightarrow> p = q"
  by (induction T) (auto simp: image_iff)

lemma do_POST_try_unauthenticated:
  "authenticate st r = Inl e \<Longrightarrow> do_POST_try d st fs r = (Inl e, fs)"
  by (simp add: do_POST_try_def)

lemma do_POST_try_mismatch:
  "authenticate st r = Inr who \<Longrightarrow> is_entries_route (route_parts r) \<Longrightarrow>
   who \<noteq> route_parts r ! 2 \<Longrightarrow>
     do_POST_try d st fs r =
       (Inl (AuthError ''Token not authorized for this agent namespace''), fs)"
  by (simp add: do_POST_try_def)

lemma do_POST_try_append:
  "authenticate st r = Inr who \<Longrightarrow> is_entries_route (route_parts r) \<Longrightarrow>
   who = route_parts r ! 2 \<Longrightarrow> content r = Document body \<Longrightarrow> entries_of body = Some es \<Longrightarrow>
     do_POST_try d st fs r = append_entries d st fs who es"
  by (cases body) (auto simp: do_POST_try_def)

lemma status_post_except: "status (post_except e) \<noteq> 201"
  by (cases e) (simp_all add: error_response_def json_response_def)

lemma append_entries_Inr:
  assumes "append_entries d st fs a es = (Inr resp, fs')"
  shows "resp = json_response 201 (JDict [(''ok'', JBool True), (''written'', JInt (int (length es)))])
       \<and> list_all (\<lambda>e. check_entry e = None) es
       \<and> ensure_write_allowed d fs (agent_fs st a) (log_path st a) = None
       \<and> (\<exists>fs1 fs2. mkdir_parents fs (parent (log_path st a)) = Inr fs1
             \<and> open_append fs1 (log_path st a) = Inr fs2
             \<and> fs' = file_append fs2 (log_path st a) (concat (map (entry_line d) es)))"
proof -
  obtain err out where w: "write_entries (dumps d) es [] = (err, out)"
    by (cases "write_entries (dumps d) es []")
  from assms w have none: "err = None"
    by (cases err) (auto simp: append_entries_def Let_def split: option.splits sum.splits)
  with w have valid: "list_all (\<lambda>e. check_entry e = None) es"
    by (auto dest: write_entries_None)
  from write_entries_all_valid [OF valid, of "dumps d" "[]"] w
  have out: "out = concat (map (entry_line d) es)"
    by (simp add: entry_line_def [abs_def])
  show ?thesis
    using assms w none valid out
    by (auto simp: append_entries_def Let_def log_path_def split: option.splits sum.splits)
qed

lemma do_POST_created:
  assumes "status (fst (do_POST d st fs r)) = 201"
  shows "\<exists>who body es. authenticate st r = Inr who \<and> is_entries_route (route_parts r)
           \<and> who = route_parts r ! 2 \<and> read_json r = Inr body \<and> entries_of body = Some es
           \<and> append_entries d st fs who es = (Inr (fst (do_POST d st fs r)), snd (do_POST d st fs r))"
proof -
  obtain res fs' where t: "do_POST_try d st fs r = (res, fs')"
    by (cases "do_POST_try d st fs r")
  with assms obtain resp where res: "res = Inr resp" and st: "status resp = 201"
    by (cases res) (auto simp: do_POST_def status_post_except)
  have post: "do_POST d st fs r = (resp, fs')"
    using t res by (simp add: do_POST_def)
  show ?thesis
    using t res st unfolding post
    by (auto simp: do_POST_try_def Let_def error_response_def json_response_def
        split: sum.splits if_splits option.splits)
qed

section \<open>Authentication\<close>

text \<open>
  C9. The credential of a request is the bearer token \<^verbatim>\<open>_bearer_token\<close> extracts from its
  \<^verbatim>\<open>Authorization\<close> header. Authentication yields a principal only if the credential
  equals the secret stored for that principal; it succeeds exactly when the credential
  equals some stored secret, so a credential that differs from every stored secret (a
  proper prefix of one, for instance) is answered with \<^verbatim>\<open>AuthError("Invalid token")\<close>;
  and when no two principals share a secret, it yields a principal if and only if the
  credential equals that principal's secret.
\<close>

theorem authenticate_exact_secret:
  assumes "bearer_token r = Some tok"
  shows "(authenticate st r = Inr who \<longrightarrow> (who, tok) \<in> set (tokens (config st)))
       \<and> ((\<exists>p. authenticate st r = Inr p) \<longleftrightarrow> tok \<in> snd ` set (tokens (config st)))
       \<and> (tok \<notin> snd ` set (tokens (config st)) \<longrightarrow>
            authenticate st r = Inl (AuthError ''Invalid token''))
       \<and> (distinct (map snd (tokens (config st))) \<longrightarrow>
            (authenticate st r = Inr who \<longleftrightarrow> (who, tok) \<in> set (tokens (config st))))"
proof -
  let ?T = "tokens (config st)"
  have auth: "authenticate st r =
      (case find (\<lambda>(who, t). t = tok) ?T of
         Some (who, t) \<Rightarrow> Inr who
       | None \<Rightarrow> Inl (AuthError ''Invalid token''))"
    using assms by (simp add: authenticate_def)
  have a: "(p, tok) \<in> set ?T" if "authenticate st r = Inr p" for p
    using that unfolding auth by (auto split: option.splits dest: find_secret_Some)
  have b: "authenticate st r = Inl (AuthError ''Invalid token'')" if "tok \<notin> snd ` set ?T"
    using that unfolding auth by (simp add: find_secret_None [symmetric])
  have c: "\<exists>p. authenticate st r = Inr p" if "tok \<in> snd ` set ?T"
  proof (cases "find (\<lambda>(who, t). t = tok) ?T")
    case None
    with that show ?thesis by (simp add: find_secret_None)
  next
    case (Some x)
    then show ?thesis unfolding auth by (cases x) simp
  qed
  have d: "authenticate st r = Inr who"
    if dist: "distinct (map snd ?T)" and mem: "(who, tok) \<in> set ?T"
  proof -
    obtain p where p: "authenticate st r = Inr p" using c mem by force
    then have "(p, tok) \<in> set ?T" by (rule a)
    with mem dist have "p = who" by (blast dest: distinct_secret_owner)
    with p show ?thesis by simp
  qed
  have e: "tok \<in> snd ` set ?T" if "authenticate st r = Inr p" for p
    using a [OF that] by force
  show ?thesis using a b c d e by blast
qed

theorem authenticate_exact_secret_witness:
  "bearer_token (sample_request ''Bearer token-b'' ''/v1/health'' NoBody) = Some ''token-b''
   \<and> authenticate sample_state (sample_request ''Bearer token-b'' ''/v1/health'' NoBody) = Inr ''beta''
   \<and> (''beta'', ''token-b'') \<in> set (tokens (config sample_state))
   \<and> bearer_token (sample_request ''Bearer token'' ''/v1/health'' NoBody) = Some ''token''
   \<and> authenticate sample_state (sample_request ''Bearer token'' ''/v1/health'' NoBody)
       = Inl (AuthError ''Invalid token'')"
proof -
  let ?r = "sample_request ''Bearer token-b'' ''/v1/health'' NoBody"
  let ?r' = "sample_request ''Bearer token'' ''/v1/health'' NoBody"
  have h: "bearer_token ?r = Some ''token-b''" by code_simp
  have h': "bearer_token ?r' = Some ''token''" by code_simp
  have dist: "distinct (map snd (tokens (config sample_state)))" by code_simp
  have mem: "(''beta'', ''token-b'') \<in> set (tokens (config sample_state))" by code_simp
  have out: "''token'' \<notin> snd ` set (tokens (config sample_state))" by code_simp
  show ?thesis
    using authenticate_exact_secret [OF h, of sample_state "''beta''"]
      authenticate_exact_secret [OF h', of sample_state "''beta''"] h h' dist mem out
    by blast
qed

section \<open>The namespace gate\<close>

text \<open>
  C1, as amended. For a request to \<^verbatim>\<open>POST /v1/agents/{agent_id}/entries\<close> that
  authenticates as a principal: when the principal differs from \<^verbatim>\<open>agent_id\<close> the
  handler raises \<^verbatim>\<open>AuthError("Token not authorized for this agent namespace")\<close>, the
  request is answered with status 401 and error kind \<^verbatim>\<open>unauthorized\<close>, and the
  filesystem is left exactly as it was, whatever the body and whatever the guard would
  say; and whenever the filesystem is changed, or the request is answered with 201, the
  principal equals \<^verbatim>\<open>agent_id\<close>.
\<close>

theorem namespace_gate_before_write:
  assumes "authenticate st r = Inr who" and "is_entries_route (route_parts r)"
  shows "(who \<noteq> route_parts r ! 2 \<longrightarrow>
            do_POST_try d st fs r =
              (Inl (AuthError ''Token not authorized for this agent namespace''), fs)
          \<and> do_POST d st fs r =
              (error_response 401 ''unauthorized''
                 ''Token not authorized for this agent namespace'', fs))
       \<and> (snd (do_POST d st fs r) \<noteq> fs \<longrightarrow> who = route_parts r ! 2)
       \<and> (status (fst (do_POST d st fs r)) = 201 \<longrightarrow> who = route_parts r ! 2)"
proof -
  have rej: "do_POST_try d st fs r =
      (Inl (AuthError ''Token not authorized for this agent namespace''), fs)"
    if "who \<noteq> route_parts r ! 2"
    using assms that by (rule do_POST_try_mismatch)
  then have resp: "do_POST d st fs r =
      (error_response 401 ''unauthorized'' ''Token not authorized for this agent namespace'', fs)"
    if "who \<noteq> route_parts r ! 2"
    using that by (simp add: do_POST_def)
  have "status (error_response 401 ''unauthorized''
          ''Token not authorized for this agent namespace'') \<noteq> 201"
    by (simp add: error_response_def json_response_def)
  with rej resp show ?thesis by (cases "who = route_parts r ! 2") auto
qed

theorem namespace_gate_before_write_witness:
  "authenticate sample_state
     (sample_request ''Bearer token-a'' ''/v1/agents/beta/entries'' (Document entry_s3))
     = Inr ''alpha''
   \<and> route_parts (sample_request ''Bearer token-a'' ''/v1/agents/beta/entries'' (Document entry_s3))
       = [''v1'', ''agents'', ''beta'', ''entries'']
   \<and> do_POST sample_deps sample_state sample_fs
       (sample_request ''Bearer token-a'' ''/v1/agents/beta/entries'' (Document entry_s3))
     = (error_response 401 ''unauthorized'' ''Token not authorized for this agent namespace'',
        sample_fs)"
proof -
  let ?r = "sample_request ''Bearer token-a'' ''/v1/agents/beta/entries'' (Document entry_s3)"
  have a: "authenticate sample_state ?r = Inr ''alpha''" by code_simp
  have p: "route_parts ?r = [''v1'', ''agents'', ''beta'', ''entries'']" by code_simp
  have b: "is_entries_route (route_parts ?r)" unfolding p by code_simp
  have c: "''alpha'' \<noteq> route_parts ?r ! 2" unfolding p by simp
  show ?thesis
    using namespace_gate_before_write [OF a b, of sample_deps sample_fs] a p c by simp
qed


text \<open>
  C1 as stated fails in the kind of the rejection: principal \<^verbatim>\<open>beta\<close> posting to the
  namespace \<^verbatim>\<open>alpha\<close> is answered with status 401 and error kind \<^verbatim>\<open>unauthorized\<close>, the
  status and kind of a request that presents no credential at all, and not with a
  Forbidden outcome of its own.
\<close>

theorem mismatch_not_forbidden_counterexample:
  "fst (do_POST guarded_deps sample_state sample_fs
      (sample_request ''Bearer token-b'' ''/v1/agents/alpha/entries'' (Document entry_s3)))
     = error_response 401 ''unauthorized'' ''Token not authorized for this agent namespace''
   \<and> status (fst (do_POST guarded_deps sample_state sample_fs
      (sample_request ''Bearer token-b'' ''/v1/agents/alpha/entries'' (Document entry_s3))))
     = status (fst (do_POST guarded_deps sample_state sample_fs
      \<lparr>authorization = None, url_path = ''/v1/agents/alpha/entries'',
       content = Document entry_s3\<rparr>))
   \<and> dict_get (payload (fst (do_POST guarded_deps sample_state sample_fs
      (sample_request ''Bearer token-b'' ''/v1/agents/alpha/entries'' (Document entry_s3)))))
        ''error''
     = dict_get (payload (fst (do_POST guarded_deps sample_state sample_fs
      \<lparr>authorization = None, url_path = ''/v1/agents/alpha/entries'',
       content = Document entry_s3\<rparr>))) ''error''"
  by code_simp

section \<open>How a namespace mismatch is reported\<close>

text \<open>
  C6, as amended. A request with a valid credential for another namespace is answered
  with status 401 and error kind \<^verbatim>\<open>unauthorized\<close>, the same status and error kind as
  a request whose credential is missing or invalid; the two differ only in the message,
  which is "Token not authorized for this agent namespace" for the mismatch.
\<close>

theorem namespace_mismatch_reported_unauthorized:
  assumes "authenticate st r = Inr who" and "is_entries_route (route_parts r)"
    and "who \<noteq> route_parts r ! 2" and "authenticate st r' = Inl e"
  shows "fst (do_POST d st fs r) =
           error_response 401 ''unauthorized'' ''Token not authorized for this agent namespace''
       \<and> fst (do_POST d st fs r') = error_response 401 ''unauthorized'' (message e)
       \<and> status (fst (do_POST d st fs r)) = status (fst (do_POST d st fs r'))
       \<and> dict_get (payload (fst (do_POST d st fs r))) ''error''
           = dict_get (payload (fst (do_POST d st fs r'))) ''error''
       \<and> message e \<noteq> ''Token not authorized for this agent namespace''"
proof -
  have a: "fst (do_POST d st fs r) =
      error_response 401 ''unauthorized'' ''Token not authorized for this agent namespace''"
    using do_POST_try_mismatch [OF assms(1,2,3)] by (simp add: do_POST_def)
  from authenticate_error [OF assms(4)]
  have e: "e = AuthError ''Missing Authorization: Bearer <token>'' \<or> e = AuthError ''Invalid token''" .
  have b: "fst (do_POST d st fs r') = error_response 401 ''unauthorized'' (message e)"
    using do_POST_try_unauthenticated [OF assms(4)] e by (auto simp: do_POST_def)
  have c: "message e \<noteq> ''Token not authorized for this agent namespace''"
    using e by auto
  show ?thesis
    unfolding a b using c by (simp add: error_response_def json_response_def)
qed

theorem namespace_mismatch_reported_unauthorized_witness:
  "fst (do_POST sample_deps sample_state sample_fs
          (sample_request ''Bearer token-a'' ''/v1/agents/beta/entries'' (Document entry_s3)))
     = error_response 401 ''unauthorized'' ''Token not authorized for this agent namespace''
   \<and> fst (do_POST sample_deps sample_state sample_fs
          (sample_request ''Bearer guess'' ''/v1/agents/beta/entries'' (Document entry_s3)))
     = error_response 401 ''unauthorized'' ''Invalid token''"
proof -
  let ?r = "sample_request ''Bearer token-a'' ''/v1/agents/beta/entries'' (Document entry_s3)"
  let ?r' = "sample_request ''Bearer guess'' ''/v1/agents/beta/entries'' (Document entry_s3)"
  have a: "authenticate sample_state ?r = Inr ''alpha''" by code_simp
  have p: "route_parts ?r = [''v1'', ''agents'', ''beta'', ''entries'']" by code_simp
  have b: "is_entries_route (route_parts ?r)" unfolding p by code_simp
  have c: "''alpha'' \<noteq> route_parts ?r ! 2" unfolding p by simp
  have e: "authenticate sample_state ?r' = Inl (AuthError ''Invalid token'')" by code_simp
  show ?thesis
    using namespace_mismatch_reported_unauthorized [OF a b c e, of sample_deps sample_fs]
    by simp
qed

text \<open>
  C6 as stated fails: principal \<^verbatim>\<open>alpha\<close> posting to the namespace \<^verbatim>\<open>beta\<close> and a
  request with an unknown token get the same status and the same error kind.
\<close>

theorem forbidden_not_distinct_counterexample:
  "status (fst (do_POST sample_deps sample_state sample_fs
      (sample_request ''Bearer token-a'' ''/v1/agents/beta/entries'' (Document entry_s3))))
   = status (fst (do_POST sample_deps sample_state sample_fs
      (sample_request ''Bearer guess'' ''/v1/agents/beta/entries'' (Document entry_s3))))
   \<and> dict_get (payload (fst (do_POST sample_deps sample_state sample_fs
      (sample_request ''Bearer token-a'' ''/v1/agents/beta/entries'' (Document entry_s3)))))
        ''error'' = JStr ''unauthorized''
   \<and> dict_get (payload (fst (do_POST sample_deps sample_state sample_fs
      (sample_request ''Bearer guess'' ''/v1/agents/beta/entries'' (Document entry_s3)))))
        ''error'' = JStr ''unauthorized''"
  by code_simp

section \<open>The health check\<close>

text \<open>
  C8, as amended. \<^verbatim>\<open>do_GET\<close> authenticates before it routes, so the health check takes
  a credential: a request for \<^verbatim>\<open>/v1/health\<close> is answered with 200 and the liveness
  flag when it authenticates, and with 401 \<^verbatim>\<open>unauthorized\<close> when it does not.
\<close>

theorem health_requires_credential:
  assumes "rstrip_slash (url_path r) = ''/v1/health''"
  shows "((\<exists>who. authenticate st r = Inr who) \<longrightarrow>
            do_GET d st fs r = json_response 200 (JDict [(''ok'', JBool True)]))
       \<and> (\<forall>e. authenticate st r = Inl e \<longrightarrow>
            do_GET d st fs r = error_response 401 ''unauthorized'' (message e))"
proof -
  have "do_GET d st fs r = error_response 401 ''unauthorized'' (message e)"
    if "authenticate st r = Inl e" for e
    using that authenticate_error [OF that] by (auto simp: do_GET_def do_GET_try_def)
  moreover have "do_GET d st fs r = json_response 200 (JDict [(''ok'', JBool True)])"
    if "authenticate st r = Inr who" for who
    using that assms by (simp add: do_GET_def do_GET_try_def)
  ultimately show ?thesis by blast
qed

theorem health_requires_credential_witness:
  "do_GET sample_deps sample_state sample_fs (sample_request ''Bearer token-a'' ''/v1/health/'' NoBody)
     = json_response 200 (JDict [(''ok'', JBool True)])
   \<and> do_GET sample_deps sample_state sample_fs
       \<lparr>authorization = None, url_path = ''/v1/health/'', content = NoBody\<rparr>
     = error_response 401 ''unauthorized'' ''Missing Authorization: Bearer <token>''"
proof -
  let ?r = "sample_request ''Bearer token-a'' ''/v1/health/'' NoBody"
  let ?r' = "\<lparr>authorization = None, url_path = ''/v1/health/'', content = NoBody\<rparr>"
  have p: "rstrip_slash (url_path ?r) = ''/v1/health''" by code_simp
  have p': "rstrip_slash (url_path ?r') = ''/v1/health''" by code_simp
  have a: "authenticate sample_state ?r = Inr ''alpha''" by code_simp
  have a': "authenticate sample_state ?r' = Inl (AuthError ''Missing Authorization: Bearer <token>'')"
    by code_simp
  show ?thesis
    using health_requires_credential [OF p, of sample_state sample_deps sample_fs]
      health_requires_credential [OF p', of sample_state sample_deps sample_fs] a a'
    by simp
qed

text \<open>
  C8 as stated fails: a health-check request without a credential is answered with 401.
\<close>

theorem health_without_credential_counterexample:
  "do_GET sample_deps sample_state sample_fs
     \<lparr>authorization = None, url_path = ''/v1/health'', content = NoBody\<rparr>
   = error_response 401 ''unauthorized'' ''Missing Authorization: Bearer <token>''"
  by code_simp

lemma append_entries_log_text:
  assumes "append_entries d st fs a es = (Inr resp, fs')"
  shows "log_text fs' (log_path st a) = log_text fs (log_path st a) @ concat (map (entry_line d) es)"
proof -
  from append_entries_Inr [OF assms] obtain fs1 fs2 where
    "mkdir_parents fs (parent (log_path st a)) = Inr fs1"
    "open_append fs1 (log_path st a) = Inr fs2"
    "fs' = file_append fs2 (log_path st a) (concat (map (entry_line d) es))"
    by blast
  then show ?thesis
    using log_text_opened [of fs "log_path st a" fs1 fs2] log_path_nonempty by simp
qed

lemma authenticate_content [simp]:
  "authenticate st (r\<lparr>content := b\<rparr>) = authenticate st r"
  by (simp add: authenticate_def bearer_token_def)

lemma route_parts_content [simp]:
  "route_parts (r\<lparr>content := b\<rparr>) = route_parts r"
  by (simp add: route_parts_def)

section \<open>A single object as a batch of one\<close>

text \<open>
  C10. A body that is a single JSON object is handled exactly as the one-element list
  holding that object: the response and the filesystem left behind are the same; and on
  success the response reports \<^verbatim>\<open>written = 1\<close> and the log has grown by exactly the
  one line the object encodes to.
\<close>

theorem single_object_is_one_entry_batch:
  "do_POST d st fs (r\<lparr>content := Document (JDict kvs)\<rparr>)
     = do_POST d st fs (r\<lparr>content := Document (JList [JDict kvs])\<rparr>)
   \<and> (status (fst (do_POST d st fs (r\<lparr>content := Document (JDict kvs)\<rparr>))) = 201 \<longrightarrow>
        payload (fst (do_POST d st fs (r\<lparr>content := Document (JDict kvs)\<rparr>)))
          = JDict [(''ok'', JBool True), (''written'', JInt 1)]
      \<and> log_text (snd (do_POST d st fs (r\<lparr>content := Document (JDict kvs)\<rparr>)))
            (log_path st (route_parts r ! 2))
          = log_text fs (log_path st (route_parts r ! 2)) @ dumps d (JDict kvs) @ [newline])"
proof -
  let ?one = "r\<lparr>content := Document (JDict kvs)\<rparr>"
  have same: "do_POST_try d st fs ?one
      = do_POST_try d st fs (r\<lparr>content := Document (JList [JDict kvs])\<rparr>)"
    by (simp add: do_POST_try_def Let_def split: sum.splits)
  have created: "payload (fst (do_POST d st fs ?one))
          = JDict [(''ok'', JBool True), (''written'', JInt 1)]
      \<and> log_text (snd (do_POST d st fs ?one)) (log_path st (route_parts r ! 2))
          = log_text fs (log_path st (route_parts r ! 2)) @ dumps d (JDict kvs) @ [newline]"
    if "status (fst (do_POST d st fs ?one)) = 201"
  proof -
    from do_POST_created [OF that] obtain who body es where
      who: "who = route_parts r ! 2" and body: "read_json ?one = Inr body"
      and es: "entries_of body = Some es"
      and app: "append_entries d st fs who es
                = (Inr (fst (do_POST d st fs ?one)), snd (do_POST d st fs ?one))"
      by auto
    from body es have es1: "es = [JDict kvs]" by auto
    from append_entries_Inr [OF app] append_entries_log_text [OF app]
    show ?thesis by (simp add: es1 who json_response_def entry_line_def)
  qed
  from same created show ?thesis by (simp add: do_POST_def)
qed

theorem single_object_is_one_entry_batch_witness:
  "status (fst (do_POST sample_deps sample_state sample_fs
      ((sample_request ''Bearer token-a'' ''/v1/agents/alpha/entries'' NoBody)
         \<lparr>content := Document (JDict [(''projection'', JDict [(''state'', JStr ''S3'')])])\<rparr>))) = 201
   \<and> payload (fst (do_POST sample_deps sample_state sample_fs
      ((sample_request ''Bearer token-a'' ''/v1/agents/alpha/entries'' NoBody)
         \<lparr>content := Document (JDict [(''projection'', JDict [(''state'', JStr ''S3'')])])\<rparr>)))
       = JDict [(''ok'', JBool True), (''written'', JInt 1)]"
proof -
  let ?r = "sample_request ''Bearer token-a'' ''/v1/agents/alpha/entries'' NoBody"
  let ?kvs = "[(''projection'', JDict [(''state'', JStr ''S3'')])]"
  have s: "status (fst (do_POST sample_deps sample_state sample_fs
      (?r\<lparr>content := Document (JDict ?kvs)\<rparr>))) = 201"
    by code_simp
  show ?thesis
    using single_object_is_one_entry_batch
        [where d = sample_deps and st = sample_state and fs = sample_fs and r = ?r and kvs = ?kvs] s
    by blast
qed

lemma check_entry_None:
  "check_entry e = None \<longleftrightarrow> is_dict e \<and> is_dict (dict_get e ''projection'')"
  by (simp add: check_entry_def)

section \<open>What the entry check accepts\<close>

text \<open>
  C3. The entry \<^verbatim>\<open>{"projection": {"state": "S9"}}\<close>, whose state is none of S1 to S7,
  passes the check of the write loop, is answered with 201 and is written to the log:
  the check looks only at the types of the entry and of its \<^verbatim>\<open>projection\<close>.
\<close>

theorem unrecognized_state_is_written:
  "check_entry entry_s9 = None
   \<and> status (fst (do_POST sample_deps sample_state sample_fs
        (sample_request ''Bearer token-a'' ''/v1/agents/alpha/entries'' (Document entry_s9)))) = 201
   \<and> log_text (snd (do_POST sample_deps sample_state sample_fs
        (sample_request ''Bearer token-a'' ''/v1/agents/alpha/entries'' (Document entry_s9))))
        (log_path sample_state ''alpha'')
     = encode entry_s3 @ [newline] @ encode entry_s9 @ [newline]"
  by code_simp

lemma check_entry_status:
  "check_entry e = Some err \<Longrightarrow> status (post_except err) = 400"
  by (auto simp: check_entry_def error_response_def json_response_def split: if_splits)

lemma split_on_no_separator: "d \<notin> set s \<Longrightarrow> split_on d s = [s]"
  by (induction s) auto


lemma joinpath_component:
  assumes "CHR ''/'' \<notin> set a"
  shows "joinpath p a = (if a = [] \<or> a = ''.'' then p else p @ [a])"
proof -
  have "\<not> startswith a ''/''"
    using assms by (cases a) (auto simp: startswith_def)
  then show ?thesis
    using assms by (simp add: joinpath_def path_parts_def split_on_no_separator)
qed

lemma agents_root_eq: "agents_root st = data_dir (config st) @ [''agents'']"
  by (simp add: agents_root_def joinpath_def path_parts_def startswith_def)

section \<open>Lines, listings and the aggregated view\<close>









lemma prefixes_of_snoc: "prefixes_of (p @ [x]) = prefixes_of p @ [p @ [x]]"
  by (auto simp: prefixes_of_def)

lemma prefixes_of_distinct: "distinct (prefixes_of p)"
proof -
  have "inj_on (\<lambda>n. take n p) (set [1 ..< Suc (length p)])"
    by (rule inj_onI) (metis atLeastLessThan_iff length_take less_Suc_eq_le min.absorb2 set_upt)
  then show ?thesis by (simp add: prefixes_of_def distinct_map)
qed


lemma iterdir_update:
  "iterdir (AList.update k v fs) dir =
     iterdir fs dir @ (if k \<notin> fst ` set fs \<and> k \<noteq> [] \<and> parent k = dir then [k] else [])"
  by (simp add: iterdir_def update_keys)

lemma lookup_None: "q \<noteq> [] \<Longrightarrow> lookup fs q = None \<longleftrightarrow> q \<notin> fst ` set fs"
  by (simp add: lookup_def map_of_eq_None_iff)

lemma keys_update: "fst ` set (AList.update k v fs) = insert k (fst ` set fs)"
  using dom_update [of k v fs] by (simp add: dom_map_of_conv_image_fst)

lemma iterdir_make_dirs:
  "distinct qs \<Longrightarrow> [] \<notin> set qs \<Longrightarrow>
     iterdir (make_dirs fs qs) dir =
       iterdir fs dir @ filter (\<lambda>q. parent q = dir \<and> q \<notin> fst ` set fs) qs"
proof (induction qs arbitrary: fs)
  case Nil
  then show ?case by simp
next
  case (Cons q qs)
  then have q: "q \<noteq> []" and nq: "q \<notin> set qs" by auto
  have rest: "filter (\<lambda>x. parent x = dir \<and> x \<notin> insert q (fst ` set fs)) qs
      = filter (\<lambda>x. parent x = dir \<and> x \<notin> fst ` set fs) qs"
    using nq by (intro filter_cong) auto
  show ?case
    using Cons q rest by (auto simp: lookup_None iterdir_update keys_update)
qed










lemma lookup_opened:
  assumes "mkdir_parents fs (parent lp) = Inr fs1" and "open_append fs1 lp = Inr fs2"
    and "lp \<noteq> []"
  shows "lookup (file_append fs2 lp out) q =
     (if q = lp then Some (File (log_text fs lp @ out))
      else if q \<in> set (prefixes_of (parent lp)) \<and> lookup fs q = None then Some Dir
      else lookup fs q)"
    and "iterdir (file_append fs2 lp out) dir =
      iterdir fs dir @ filter (\<lambda>q. parent q = dir \<and> q \<notin> fst ` set fs) (prefixes_of (parent lp))
        @ (if lp \<notin> fst ` set fs \<and> parent lp = dir then [lp] else [])"
proof -
  have fs1: "fs1 = make_dirs fs (prefixes_of (parent lp))"
    using assms(1) by (auto simp: mkdir_parents_def split: if_splits)
  have notin: "lp \<notin> set (prefixes_of (parent lp))"
    using prefixes_of_length [of lp "parent lp"] assms(3) by (cases lp) (auto simp: parent_def)
  have l1: "lookup fs1 q = (if q \<in> set (prefixes_of (parent lp)) \<and> lookup fs q = None
      then Some Dir else lookup fs q)" for q
    by (simp add: fs1 lookup_make_dirs prefixes_of_nonempty)
  have same: "lookup fs1 lp = lookup fs lp"
    using notin by (simp add: l1)
  have i1: "iterdir fs1 dir = iterdir fs dir
      @ filter (\<lambda>q. parent q = dir \<and> q \<notin> fst ` set fs) (prefixes_of (parent lp))"
    by (simp add: fs1 iterdir_make_dirs prefixes_of_distinct prefixes_of_nonempty)
  have k1: "lp \<in> fst ` set fs1 \<longleftrightarrow> lp \<in> fst ` set fs"
    using same assms(3) lookup_None [of lp fs1] lookup_None [of lp fs] by simp
  have open2: "lookup fs2 lp = Some (File (log_text fs lp))
      \<and> (\<forall>q. q \<noteq> lp \<longrightarrow> lookup fs2 q = lookup fs1 q)
      \<and> iterdir fs2 dir = iterdir fs1 dir
          @ (if lp \<notin> fst ` set fs \<and> parent lp = dir then [lp] else [])"
  proof (cases "lookup fs1 lp")
    case None
    then have fs2: "fs2 = AList.update lp (File []) fs1"
      using assms(2) by (auto simp: open_append_def split: if_splits)
    have "lp \<notin> fst ` set fs1" using None assms(3) by (simp add: lookup_None)
    moreover have "log_text fs lp = []" using None same by (simp add: log_text_def)
    ultimately show ?thesis
      using assms(3) k1 by (simp add: fs2 lookup_update iterdir_update)
  next
    case (Some n)
    then obtain c where n: "n = File c" and fs2: "fs2 = fs1"
      using assms(2) by (cases n) (auto simp: open_append_def)
    have "lp \<in> fst ` set fs1" using Some assms(3) lookup_None [of lp fs1] by auto
    moreover have "log_text fs lp = c" using Some n same by (simp add: log_text_def)
    ultimately show ?thesis
      using Some n k1 by (simp add: fs2)
  qed
  then have in2: "lp \<in> fst ` set fs2"
    using assms(3) lookup_None [of lp fs2] by auto
  have fa: "file_append fs2 lp out = AList.update lp (File (log_text fs lp @ out)) fs2"
    using open2 by (simp add: file_append_def)
  show "lookup (file_append fs2 lp out) q =
     (if q = lp then Some (File (log_text fs lp @ out))
      else if q \<in> set (prefixes_of (parent lp)) \<and> lookup fs q = None then Some Dir
      else lookup fs q)"
    using open2 assms(3) by (simp add: fa lookup_update l1)
  show "iterdir (file_append fs2 lp out) dir =
      iterdir fs dir @ filter (\<lambda>q. parent q = dir \<and> q \<notin> fst ` set fs) (prefixes_of (parent lp))
        @ (if lp \<notin> fst ` set fs \<and> parent lp = dir then [lp] else [])"
    using open2 in2 by (simp add: fa iterdir_update i1)
qed




lemma well_formed_parent:
  "well_formed fs \<Longrightarrow> p \<in> fst ` set fs \<Longrightarrow> lookup fs (parent p) = Some Dir"
  by (force simp: well_formed_def list_all_iff)





section \<open>What a submission preserves\<close>

text \<open>
  Whatever the request and its outcome, \<^verbatim>\<open>do_POST\<close> leaves a well-formed filesystem
  well formed and a terminated log terminated: the two conditions on the filesystem
  under which the round trip below is stated hold in every state the handler reaches
  from one in which they hold.
\<close>

lemma terminated_append: "terminated s \<Longrightarrow> terminated t \<Longrightarrow> terminated (s @ t)"
  by (cases "t = []") (auto simp: terminated_def)

lemma write_entries_terminated:
  "write_entries enc es acc = (err, out) \<Longrightarrow> terminated acc \<Longrightarrow> terminated out"
proof (induction es arbitrary: acc)
  case Nil
  then show ?case by simp
next
  case (Cons e es)
  show ?case
  proof (cases "check_entry e")
    case None
    with Cons.prems have "write_entries enc es (acc @ enc e @ [newline]) = (err, out)" by simp
    moreover have "terminated (acc @ enc e @ [newline])" by (simp add: terminated_def)
    ultimately show ?thesis by (rule Cons.IH)
  next
    case (Some x)
    with Cons.prems show ?thesis by simp
  qed
qed

lemma append_entries_effect:
  assumes "append_entries d st fs a es = (res, fs')"
  shows "fs' = fs
       \<or> mkdir_parents fs (parent (log_path st a)) = Inr fs'
       \<or> (\<exists>fs1 fs2 out. mkdir_parents fs (parent (log_path st a)) = Inr fs1
             \<and> open_append fs1 (log_path st a) = Inr fs2
             \<and> fs' = file_append fs2 (log_path st a) out \<and> terminated out)"
proof -
  obtain err out where w: "write_entries (dumps d) es [] = (err, out)"
    by (cases "write_entries (dumps d) es []")
  then have "terminated out"
    by (rule write_entries_terminated) (simp add: terminated_def)
  with assms w show ?thesis
    by (auto simp: append_entries_def Let_def log_path_def split: option.splits sum.splits)
qed

lemma do_POST_effect:
  "snd (do_POST d st fs r) = fs
   \<or> mkdir_parents fs (parent (log_path st (route_parts r ! 2))) = Inr (snd (do_POST d st fs r))
   \<or> (\<exists>fs1 fs2 out. mkdir_parents fs (parent (log_path st (route_parts r ! 2))) = Inr fs1
         \<and> open_append fs1 (log_path st (route_parts r ! 2)) = Inr fs2
         \<and> snd (do_POST d st fs r) = file_append fs2 (log_path st (route_parts r ! 2)) out
         \<and> terminated out)"
proof -
  obtain res fs' where t: "do_POST_try d st fs r = (res, fs')"
    by (cases "do_POST_try d st fs r")
  then have s: "snd (do_POST d st fs r) = fs'"
    by (cases res) (simp_all add: do_POST_def)
  from t have "fs' = fs \<or> (\<exists>es. append_entries d st fs (route_parts r ! 2) es = (res, fs'))"
    by (auto simp: do_POST_try_def Let_def split: sum.splits if_splits option.splits)
  then show ?thesis
    unfolding s using append_entries_effect by blast
qed


lemma do_POST_keeps_logs_terminated:
  assumes "terminated (log_text fs p)"
  shows "terminated (log_text (snd (do_POST d st fs r)) p)"
proof -
  let ?lp = "log_path st (route_parts r ! 2)"
  let ?fs' = "snd (do_POST d st fs r)"
  from do_POST_effect [of d st fs r] consider
      "?fs' = fs"
    | "mkdir_parents fs (parent ?lp) = Inr ?fs'"
    | fs1 fs2 out where "mkdir_parents fs (parent ?lp) = Inr fs1" "open_append fs1 ?lp = Inr fs2"
        "?fs' = file_append fs2 ?lp out" "terminated out"
    by blast
  then show ?thesis
  proof cases
    case 1
    with assms show ?thesis by simp
  next
    case 2
    then have "?fs' = make_dirs fs (prefixes_of (parent ?lp))"
      by (auto simp: mkdir_parents_def split: if_splits)
    then have "log_text ?fs' p = log_text fs p"
      by (simp add: log_text_def lookup_make_dirs prefixes_of_nonempty)
    with assms show ?thesis by simp
  next
    case 3
    have "log_text ?fs' p = (if p = ?lp then log_text fs ?lp @ out else log_text fs p)"
      unfolding 3(3) log_text_def [of _ p]
      by (simp add: lookup_opened(1) [OF 3(1,2) log_path_nonempty] log_text_def)
    with assms 3(4) show ?thesis by (auto simp: terminated_append)
  qed
qed

lemma distinct_make_dirs:
  "distinct (map fst fs) \<Longrightarrow> distinct (map fst (make_dirs fs qs))"
  by (induction qs arbitrary: fs) (simp_all add: distinct_update)

lemma keys_make_dirs: "fst ` set (make_dirs fs qs) \<subseteq> fst ` set fs \<union> set qs"
proof (induction qs arbitrary: fs)
  case Nil
  then show ?case by simp
next
  case (Cons q qs)
  from Cons.IH [of "if lookup fs q = None then AList.update q Dir fs else fs"]
  show ?case by (auto simp: keys_update split: if_splits)
qed

lemma prefixes_of_parent_in:
  assumes "q \<in> set (prefixes_of p)"
  shows "parent q = [] \<or> parent q \<in> set (prefixes_of p)"
proof -
  from assms obtain n where n: "1 \<le> n" "n \<le> length p" and q: "q = take n p"
    by (auto simp: prefixes_of_def)
  have pq: "parent q = take (n - 1) p"
    using n by (simp add: q parent_def butlast_take)
  show ?thesis
  proof (cases "n = 1")
    case True
    then show ?thesis by (simp add: pq)
  next
    case False
    with n have "n - 1 \<in> set [1 ..< Suc (length p)]" by auto
    then have "take (n - 1) p \<in> set (prefixes_of p)"
      unfolding prefixes_of_def by (simp only: set_map) (rule imageI)
    then show ?thesis by (simp add: pq)
  qed
qed

lemma mkdir_parents_no_file:
  assumes "mkdir_parents fs p = Inr fs1" and "q \<in> set (prefixes_of p)"
  shows "\<not> is_file (lookup fs q)"
proof (cases "p = []")
  case True
  with assms(2) show ?thesis by (simp add: prefixes_of_def)
next
  case False
  then obtain ys y where p: "p = ys @ [y]" by (cases p rule: rev_cases) auto
  from assms(1) have "\<not> list_ex (\<lambda>q. is_file (lookup fs q)) (prefixes_of (parent p))"
    and "\<not> is_file (lookup fs p)"
    by (auto simp: mkdir_parents_def split: if_splits)
  with assms(2) show ?thesis
    by (auto simp: p parent_def prefixes_of_snoc list_ex_iff)
qed


lemma well_formed_extend:
  assumes "well_formed fs" and "distinct (map fst fs')"
    and "\<And>p. p \<in> fst ` set fs' \<Longrightarrow> p \<in> fst ` set fs \<or> lookup fs' (parent p) = Some Dir"
    and "\<And>q. lookup fs q = Some Dir \<Longrightarrow> lookup fs' q = Some Dir"
  shows "well_formed fs'"
proof -
  have "lookup fs' (parent p) = Some Dir" if "p \<in> fst ` set fs'" for p
    using assms(3) [OF that] assms(4) well_formed_parent [OF assms(1)] by blast
  with assms(2) show ?thesis
    by (simp add: well_formed_def list_all_iff)
qed

lemma new_dir_parent:
  assumes mk: "mkdir_parents fs p = Inr fs1" and q: "q \<in> set (prefixes_of p)"
    and look: "\<And>x. x \<in> set (prefixes_of p) \<Longrightarrow> lookup fs' x = Some Dir"
    and root: "lookup fs' [] = Some Dir"
  shows "lookup fs' (parent q) = Some Dir"
  using prefixes_of_parent_in [OF q] look root by auto

lemma mkdir_parents_lookup:
  assumes "mkdir_parents fs p = Inr fs1"
  shows "lookup fs1 q = (if q \<in> set (prefixes_of p) then Some Dir else lookup fs q)"
proof -
  have fs1: "fs1 = make_dirs fs (prefixes_of p)"
    using assms by (auto simp: mkdir_parents_def split: if_splits)
  show ?thesis
  proof (cases "q \<in> set (prefixes_of p)")
    case True
    from mkdir_parents_no_file [OF assms True] have "lookup fs q = None \<or> lookup fs q = Some Dir"
      by (cases "lookup fs q" rule: is_file.cases) auto
    with True show ?thesis by (auto simp: fs1 lookup_make_dirs prefixes_of_nonempty)
  next
    case False
    then show ?thesis by (simp add: fs1 lookup_make_dirs prefixes_of_nonempty)
  qed
qed

lemma mkdir_parents_well_formed:
  assumes wf: "well_formed fs" and mk: "mkdir_parents fs p = Inr fs1"
  shows "well_formed fs1"
proof (rule well_formed_extend [OF wf])
  have fs1: "fs1 = make_dirs fs (prefixes_of p)"
    using mk by (auto simp: mkdir_parents_def split: if_splits)
  show "distinct (map fst fs1)"
    using wf by (simp add: fs1 distinct_make_dirs well_formed_def)
  show "lookup fs1 q = Some Dir" if "lookup fs q = Some Dir" for q
    using that by (simp add: mkdir_parents_lookup [OF mk])
  show "q \<in> fst ` set fs \<or> lookup fs1 (parent q) = Some Dir" if "q \<in> fst ` set fs1" for q
  proof (cases "q \<in> fst ` set fs")
    case True
    then show ?thesis ..
  next
    case False
    with that keys_make_dirs [of fs "prefixes_of p"] have q: "q \<in> set (prefixes_of p)"
      by (auto simp: fs1)
    have "lookup fs1 (parent q) = Some Dir"
      using mk q
    proof (rule new_dir_parent)
      show "lookup fs1 x = Some Dir" if "x \<in> set (prefixes_of p)" for x
        using that by (simp add: mkdir_parents_lookup [OF mk])
      show "lookup fs1 [] = Some Dir" by (simp add: lookup_def)
    qed
    then show ?thesis ..
  qed
qed

lemma update_file_well_formed:
  assumes wf: "well_formed fs" and dir: "lookup fs (parent p) = Some Dir"
    and nodir: "lookup fs p \<noteq> Some Dir" and p: "p \<noteq> []"
  shows "well_formed (AList.update p (File c) fs)"
proof (rule well_formed_extend [OF wf])
  show "distinct (map fst (AList.update p (File c) fs))"
    using wf by (simp add: distinct_update well_formed_def)
  show "lookup (AList.update p (File c) fs) q = Some Dir" if "lookup fs q = Some Dir" for q
    using that nodir p by (auto simp: lookup_update)
  show "q \<in> fst ` set fs \<or> lookup (AList.update p (File c) fs) (parent q) = Some Dir"
    if "q \<in> fst ` set (AList.update p (File c) fs)" for q
  proof (cases "q = p")
    case True
    have "parent p \<noteq> p" using p by (cases p rule: rev_cases) (auto simp: parent_def)
    with dir p True show ?thesis by (simp add: lookup_update)
  next
    case False
    with that show ?thesis by (simp add: keys_update)
  qed
qed

lemma open_append_well_formed:
  assumes "well_formed fs" and "open_append fs p = Inr fs2" and "p \<noteq> []"
  shows "well_formed fs2"
proof (cases "lookup fs p")
  case None
  then have "fs2 = AList.update p (File []) fs" and "lookup fs (parent p) = Some Dir"
    using assms(2) by (auto simp: open_append_def split: if_splits)
  with None assms(1,3) show ?thesis by (simp add: update_file_well_formed)
next
  case (Some n)
  then have "fs2 = fs" using assms(2) by (cases n) (auto simp: open_append_def)
  with assms(1) show ?thesis by simp
qed

lemma file_append_well_formed:
  assumes "well_formed fs" and "p \<noteq> []"
  shows "well_formed (file_append fs p out)"
proof (cases "lookup fs p")
  case None
  with assms(1) show ?thesis by (simp add: file_append_def)
next
  case (Some n)
  show ?thesis
  proof (cases n)
    case Dir
    with Some assms(1) show ?thesis by (simp add: file_append_def)
  next
    case (File c)
    from Some assms(2) have "p \<in> fst ` set fs" using lookup_None [of p fs] by auto
    from well_formed_parent [OF assms(1) this] Some File assms
    show ?thesis by (simp add: file_append_def update_file_well_formed)
  qed
qed

lemma do_POST_keeps_well_formed:
  assumes "well_formed fs"
  shows "well_formed (snd (do_POST d st fs r))"
proof -
  let ?lp = "log_path st (route_parts r ! 2)"
  let ?fs' = "snd (do_POST d st fs r)"
  from do_POST_effect [of d st fs r] consider
      "?fs' = fs"
    | "mkdir_parents fs (parent ?lp) = Inr ?fs'"
    | fs1 fs2 out where "mkdir_parents fs (parent ?lp) = Inr fs1" "open_append fs1 ?lp = Inr fs2"
        "?fs' = file_append fs2 ?lp out"
    by blast
  then show ?thesis
  proof cases
    case 1
    with assms show ?thesis by simp
  next
    case 2
    with assms show ?thesis by (rule mkdir_parents_well_formed)
  next
    case 3
    from assms 3(1) have "well_formed fs1" by (rule mkdir_parents_well_formed)
    then have "well_formed fs2" using 3(2) log_path_nonempty by (rule open_append_well_formed)
    then show ?thesis unfolding 3(3) using log_path_nonempty by (rule file_append_well_formed)
  qed
qed

lemma log_text_mkdir:
  assumes "mkdir_parents fs (parent lp) = Inr fs1" and "lp \<noteq> []"
  shows "log_text fs1 lp = log_text fs lp"
proof -
  have fs1: "fs1 = make_dirs fs (prefixes_of (parent lp))"
    using assms(1) by (auto simp: mkdir_parents_def split: if_splits)
  have "lp \<notin> set (prefixes_of (parent lp))"
    using prefixes_of_length [of lp "parent lp"] assms(2) by (cases lp) (auto simp: parent_def)
  then show ?thesis
    by (simp add: fs1 log_text_def lookup_make_dirs prefixes_of_nonempty)
qed

lemma append_entries_failed_batch:
  assumes "list_all (\<lambda>e. check_entry e = None) pre" and "check_entry bad = Some err"
  shows "append_entries d st fs a (pre @ bad # rest) =
     (case ensure_write_allowed d fs (agent_fs st a) (log_path st a) of
        Some m \<Rightarrow> (Inl (SandboxViolation m), fs)
      | None \<Rightarrow>
          (case mkdir_parents fs (parent (log_path st a)) of
             Inl e \<Rightarrow> (Inl e, fs)
           | Inr fs1 \<Rightarrow>
               (case open_append fs1 (log_path st a) of
                  Inl e \<Rightarrow> (Inl e, fs1)
                | Inr fs2 \<Rightarrow>
                    (Inl err,
                     file_append fs2 (log_path st a) (concat (map (entry_line d) pre))))))"
proof -
  have "write_entries (dumps d) (pre @ bad # rest) []
      = (Some err, concat (map (entry_line d) pre))"
    using write_entries_first_invalid [OF assms, of "dumps d" rest "[]"]
    by (simp add: entry_line_def [abs_def])
  then show ?thesis
    by (simp add: append_entries_def log_path_def Let_def split: option.splits sum.splits)
qed

section \<open>A batch with an invalid entry\<close>

text \<open>
  C2, as amended. Let a batch be submitted as a JSON list in which an entry fails the
  check and every entry before it passes. If the request reaches the write loop (it
  authenticates as the namespace of its route, the guard admits the log of that
  namespace, and the directories and the log can be created or opened), it is rejected
  with status 400 and the log then holds what it held before followed by the lines of
  the entries that precede the failing one, in order, and nothing of the failing entry
  or of those after it. In every other case the request is not answered with 201 and
  the log holds exactly what it held before.
\<close>

theorem failed_batch_keeps_valid_prefix:
  assumes "content r = Document (JList (pre @ bad # rest))"
    and "list_all (\<lambda>e. check_entry e = None) pre" and "check_entry bad = Some err"
  shows "(reaches_write_loop d st fs r \<longrightarrow>
            fst (do_POST d st fs r) = post_except err
          \<and> status (fst (do_POST d st fs r)) = 400
          \<and> log_text (snd (do_POST d st fs r)) (log_path st (route_parts r ! 2))
              = log_text fs (log_path st (route_parts r ! 2)) @ concat (map (entry_line d) pre))
       \<and> (\<not> reaches_write_loop d st fs r \<longrightarrow>
            status (fst (do_POST d st fs r)) \<noteq> 201
          \<and> log_text (snd (do_POST d st fs r)) (log_path st (route_parts r ! 2))
              = log_text fs (log_path st (route_parts r ! 2)))"
proof -
  let ?X = "route_parts r ! 2"
  let ?lp = "log_path st ?X"
  let ?W = "reaches_write_loop d st fs r"
  have body: "read_json r = Inr (JList (pre @ bad # rest))"
    using assms(1) by simp
  have tried: "do_POST_try d st fs r = append_entries d st fs ?X (pre @ bad # rest)"
    if "authenticate st r = Inr ?X" and "is_entries_route (route_parts r)"
    using that assms(1) by (intro do_POST_try_append [where body = "JList (pre @ bad # rest)"]) auto
  note app = append_entries_failed_batch [OF assms(2,3), of d st fs ?X rest]
  have reached: "fst (do_POST d st fs r) = post_except err
      \<and> status (fst (do_POST d st fs r)) = 400
      \<and> log_text (snd (do_POST d st fs r)) ?lp
          = log_text fs ?lp @ concat (map (entry_line d) pre)"
    if w: ?W
  proof -
    from w obtain fs1 fs2 where auth: "authenticate st r = Inr ?X"
      and route: "is_entries_route (route_parts r)"
      and guard: "ensure_write_allowed d fs (agent_fs st ?X) ?lp = None"
      and mk: "mkdir_parents fs (parent ?lp) = Inr fs1"
      and op: "open_append fs1 ?lp = Inr fs2"
      by (auto simp: reaches_write_loop_def Let_def split: sum.splits)
    have "do_POST d st fs r
        = (post_except err, file_append fs2 ?lp (concat (map (entry_line d) pre)))"
      using tried [OF auth route] app guard mk op by (simp add: do_POST_def)
    then show ?thesis
      using check_entry_status [OF assms(3)] log_text_opened [OF mk op log_path_nonempty]
      by simp
  qed
  have other: "status (fst (do_POST d st fs r)) \<noteq> 201
      \<and> log_text (snd (do_POST d st fs r)) ?lp = log_text fs ?lp"
    if nw: "\<not> ?W"
  proof (cases "authenticate st r = Inr ?X \<and> is_entries_route (route_parts r)")
    case True
    then have t: "do_POST_try d st fs r = append_entries d st fs ?X (pre @ bad # rest)"
      using tried by simp
    show ?thesis
    proof (cases "ensure_write_allowed d fs (agent_fs st ?X) ?lp")
      case (Some m)
      then show ?thesis
        using t app by (simp add: do_POST_def error_response_def json_response_def)
    next
      case None
      show ?thesis
      proof (cases "mkdir_parents fs (parent ?lp)")
        case (Inl e)
        then show ?thesis
          using t app None status_post_except [of e] by (simp add: do_POST_def)
      next
        case (Inr fs1)
        show ?thesis
        proof (cases "open_append fs1 ?lp")
          case (Inl e)
          then show ?thesis
            using t app None Inr status_post_except [of e]
              log_text_mkdir [OF Inr log_path_nonempty]
            by (simp add: do_POST_def)
        next
          case open_ok: (Inr fs2)
          with True None Inr have ?W
            by (simp add: reaches_write_loop_def Let_def)
          with nw show ?thesis by simp
        qed
      qed
    qed
  next
    case False
    have unchanged: "snd (do_POST d st fs r) = fs"
    proof (cases "authenticate st r")
      case (Inl e)
      then show ?thesis by (simp add: do_POST_def do_POST_try_def)
    next
      case (Inr who)
      with False show ?thesis
        by (auto simp: do_POST_def do_POST_try_def Let_def)
    qed
    have "status (fst (do_POST d st fs r)) \<noteq> 201"
    proof
      assume "status (fst (do_POST d st fs r)) = 201"
      from do_POST_created [OF this] False show False by auto
    qed
    with unchanged show ?thesis by simp
  qed
  from reached other show ?thesis by blast
qed

theorem failed_batch_keeps_valid_prefix_witness:
  "fst (do_POST guarded_deps dotdot_state dotdot_fs
     (sample_request ''Bearer token-up'' ''/v1/agents/../entries''
        (Document (JList ([entry_s3] @ JStr ''oops'' # [entry_s3]))))) 
   = error_response 400 ''bad_request'' ''Each entry must be a JSON object''
   \<and> log_text (snd (do_POST guarded_deps dotdot_state dotdot_fs
        (sample_request ''Bearer token-up'' ''/v1/agents/../entries''
           (Document (JList ([entry_s3] @ JStr ''oops'' # [entry_s3]))))))
        (log_path dotdot_state ''..'')
     = log_text dotdot_fs (log_path dotdot_state ''..'') @ encode entry_s3 @ [newline]
   \<and> log_text (snd (do_POST guarded_deps dotdot_state dotdot_fs
        (sample_request ''Bearer token-a'' ''/v1/agents/alpha/entries''
           (Document (JList ([entry_s3] @ JStr ''oops'' # [entry_s3]))))))
        (log_path dotdot_state ''alpha'')
     = log_text dotdot_fs (log_path dotdot_state ''alpha'')"
proof -
  let ?b = "Document (JList ([entry_s3] @ JStr ''oops'' # [entry_s3]))"
  let ?up = "sample_request ''Bearer token-up'' ''/v1/agents/../entries'' ?b"
  let ?al = "sample_request ''Bearer token-a'' ''/v1/agents/alpha/entries'' ?b"
  have k: "content ?up = ?b" "content ?al = ?b" by (simp_all add: sample_request_def)
  have v: "list_all (\<lambda>e. check_entry e = None) [entry_s3]" by code_simp
  have x: "check_entry (JStr ''oops'') = Some (ValueError ''Each entry must be a JSON object'')"
    by code_simp
  have w: "reaches_write_loop guarded_deps dotdot_state dotdot_fs ?up" by code_simp
  have nw: "\<not> reaches_write_loop guarded_deps dotdot_state dotdot_fs ?al" by code_simp
  have xu: "route_parts ?up ! 2 = ''..''" and xa: "route_parts ?al ! 2 = ''alpha''"
    by code_simp+
  have enc: "concat (map (entry_line guarded_deps) [entry_s3]) = encode entry_s3 @ [newline]"
    by (simp add: entry_line_def guarded_deps_def sample_deps_def)
  from failed_batch_keeps_valid_prefix [OF k(1) v x, of guarded_deps dotdot_state dotdot_fs] w
  have "fst (do_POST guarded_deps dotdot_state dotdot_fs ?up)
        = post_except (ValueError ''Each entry must be a JSON object'')
      \<and> log_text (snd (do_POST guarded_deps dotdot_state dotdot_fs ?up))
          (log_path dotdot_state (route_parts ?up ! 2))
        = log_text dotdot_fs (log_path dotdot_state (route_parts ?up ! 2))
            @ concat (map (entry_line guarded_deps) [entry_s3])"
    by blast
  moreover
  from failed_batch_keeps_valid_prefix [OF k(2) v x, of guarded_deps dotdot_state dotdot_fs] nw
  have "log_text (snd (do_POST guarded_deps dotdot_state dotdot_fs ?al))
          (log_path dotdot_state (route_parts ?al ! 2))
        = log_text dotdot_fs (log_path dotdot_state (route_parts ?al ! 2))"
    by blast
  ultimately show ?thesis unfolding xu xa enc by simp
qed

text \<open>
  C2 as stated fails, under the guard of the specification: the principal \<^verbatim>\<open>..\<close>
  submits a valid entry followed by a string; the request is rejected with 400, and
  the log that held one line before holds two after.
\<close>

theorem failed_batch_not_atomic_counterexample:
  "status (fst (do_POST guarded_deps dotdot_state dotdot_fs
      (sample_request ''Bearer token-up'' ''/v1/agents/../entries''
         (Document (JList [entry_s3, JStr ''oops'']))))) = 400
   \<and> log_text dotdot_fs (log_path dotdot_state ''..'') = encode entry_s9 @ [newline]
   \<and> log_text (snd (do_POST guarded_deps dotdot_state dotdot_fs
      (sample_request ''Bearer token-up'' ''/v1/agents/../entries''
         (Document (JList [entry_s3, JStr ''oops'']))))) (log_path dotdot_state ''..'')
     = encode entry_s9 @ [newline] @ encode entry_s3 @ [newline]"
  by code_simp

lemma resolve_acc_append: "resolve_acc acc (p @ q) = resolve_acc (resolve_acc acc p) q"
  by (induction p arbitrary: acc) auto

lemma resolve_snoc:
  "resolve (p @ [c]) = (if c = ''..'' then butlast (resolve p) else resolve p @ [c])"
  by (simp add: resolve_def resolve_acc_append)

lemma resolve_agents_root: "resolve (agents_root st) = resolve (data_dir (config st)) @ [''agents'']"
  by (simp add: agents_root_eq resolve_snoc)

lemma within_child:
  assumes "within (p @ [a]) q \<or> within q (p @ [a])"
  shows "within p q \<or> within q p"
proof -
  from assms consider "take (length q) (p @ [a]) = q" | "take (length (p @ [a])) q = p @ [a]"
    by (auto simp: within_def)
  then show ?thesis
  proof cases
    case 1
    show ?thesis
    proof (cases "length q \<le> length p")
      case True
      with 1 show ?thesis by (simp add: within_def)
    next
      case False
      with 1 have "q = p @ [a]"
        by (metis append_eq_conv_conj length_append_singleton linorder_not_le not_less_eq_eq take_all)
      then show ?thesis by (simp add: within_def)
    qed
  next
    case 2
    then have "take (length p) (take (length (p @ [a])) q) = p" by simp
    then have "take (length p) q = p" by (simp add: min_def)
    then show ?thesis by (simp add: within_def)
  qed
qed

section \<open>The roots of a sandbox\<close>

text \<open>
  C4, as amended. For every agent identifier the handler can pass (a path segment, so
  without a slash) \<^verbatim>\<open>agent_fs\<close> rejects nothing: it constructs the sandbox whose allowed
  root is \<^verbatim>\<open>data_dir/agents/<agent_id>\<close> and whose deny roots are the corpus directory
  and \<^verbatim>\<open>data_dir/agents\<close>. As a directory, with \<^verbatim>\<open>.\<close> and \<^verbatim>\<open>..\<close> resolved, the allowed
  root is a child of \<^verbatim>\<open>data_dir/agents\<close>, or that directory itself (identifier \<^verbatim>\<open>.\<close>),
  or its parent \<^verbatim>\<open>data_dir\<close> (identifier \<^verbatim>\<open>..\<close>); in each case it is related to that
  deny root, so the roots are never disjoint. For every identifier other than \<^verbatim>\<open>..\<close>
  the allowed root is disjoint from the corpus directory whenever \<^verbatim>\<open>data_dir/agents\<close> is.
\<close>

theorem agent_fs_roots:
  assumes "CHR ''/'' \<notin> set agent_id"
  shows "deny_roots (agent_fs st agent_id) = [parent (core_path (config st)), agents_root st]
       \<and> allowed_root (agent_fs st agent_id)
           = (if agent_id = [] \<or> agent_id = ''.'' then agents_root st
              else agents_root st @ [agent_id])
       \<and> resolve (allowed_root (agent_fs st agent_id))
           = (if agent_id = [] \<or> agent_id = ''.'' then resolve (agents_root st)
              else if agent_id = ''..'' then resolve (data_dir (config st))
              else resolve (agents_root st) @ [agent_id])
       \<and> resolve (agents_root st) = resolve (data_dir (config st)) @ [''agents'']
       \<and> related (allowed_root (agent_fs st agent_id)) (agents_root st)
       \<and> \<not> roots_disjoint (agent_fs st agent_id)
       \<and> (agent_id \<noteq> ''..'' \<and> \<not> related (agents_root st) (parent (core_path (config st)))
            \<longrightarrow> \<not> related (allowed_root (agent_fs st agent_id))
                  (parent (core_path (config st))))"
proof -
  let ?A = "allowed_root (agent_fs st agent_id)"
  have a: "?A = (if agent_id = [] \<or> agent_id = ''.'' then agents_root st
                 else agents_root st @ [agent_id])"
    using assms by (simp add: agent_fs_def joinpath_component)
  have d: "deny_roots (agent_fs st agent_id) = [parent (core_path (config st)), agents_root st]"
    by (simp add: agent_fs_def)
  have r: "resolve ?A = (if agent_id = [] \<or> agent_id = ''.'' then resolve (agents_root st)
              else if agent_id = ''..'' then resolve (data_dir (config st))
              else resolve (agents_root st) @ [agent_id])"
    by (simp add: a resolve_snoc resolve_agents_root)
  have rel: "related ?A (agents_root st)"
    by (simp add: related_def r resolve_agents_root within_def)
  have c: "\<not> related ?A (parent (core_path (config st)))"
    if "agent_id \<noteq> ''..''" and "\<not> related (agents_root st) (parent (core_path (config st)))"
  proof (cases "agent_id = [] \<or> agent_id = ''.''")
    case True
    with that(2) show ?thesis by (simp add: a)
  next
    case False
    with that(1) have "resolve ?A = resolve (agents_root st) @ [agent_id]" by (simp add: r)
    with that(2) within_child [of "resolve (agents_root st)" agent_id
        "resolve (parent (core_path (config st)))"]
    show ?thesis by (auto simp: related_def)
  qed
  show ?thesis
    using a d r rel c resolve_agents_root by (simp add: roots_disjoint_def)
qed

theorem agent_fs_roots_witness:
  "allowed_root (agent_fs sample_state ''alpha'')
     = [''srv'', ''isolation_proof'', ''out'', ''api'', ''agents'', ''alpha'']
   \<and> deny_roots (agent_fs sample_state ''alpha'')
     = [[''srv'', ''isolation_proof'', ''core''],
        [''srv'', ''isolation_proof'', ''out'', ''api'', ''agents'']]
   \<and> \<not> related (allowed_root (agent_fs sample_state ''alpha''))
         (parent (core_path (config sample_state)))"
proof -
  have h: "CHR ''/'' \<notin> set ''alpha''" by simp
  have ar: "agents_root sample_state = [''srv'', ''isolation_proof'', ''out'', ''api'', ''agents'']"
    by code_simp
  have cp: "parent (core_path (config sample_state)) = [''srv'', ''isolation_proof'', ''core'']"
    by code_simp
  have nr: "\<not> related (agents_root sample_state) (parent (core_path (config sample_state)))"
    by code_simp
  have plain: "''alpha'' \<noteq> ''..''" by simp
  note inst = agent_fs_roots [OF h, of sample_state]
  from inst have "allowed_root (agent_fs sample_state ''alpha'') = agents_root sample_state @ [''alpha'']"
    by simp
  moreover from inst have "deny_roots (agent_fs sample_state ''alpha'')
      = [parent (core_path (config sample_state)), agents_root sample_state]"
    by (rule conjunct1)
  moreover from inst nr plain have "\<not> related (allowed_root (agent_fs sample_state ''alpha''))
         (parent (core_path (config sample_state)))"
    by blast
  ultimately show ?thesis unfolding ar cp by simp
qed

text \<open>
  C4 as stated fails: the sandbox constructed for \<^verbatim>\<open>alpha\<close> has an allowed root below
  one of its deny roots.
\<close>

theorem roots_not_disjoint_counterexample:
  "\<not> roots_disjoint (agent_fs sample_state ''alpha'')"
  by code_simp

lemma expected_core_sha256_eq:
  assumes "read_bytes fs (core_hash_path (config st)) = Inr companion"
    and "decode_utf8 companion = Some t"
    and "split_text (strip_text (universal_newlines t)) = expected # others"
  shows "expected_core_sha256 st fs = Inr expected"
  using assms by (simp add: expected_core_sha256_def read_text_def)

section \<open>Reading the corpus\<close>

text \<open>
  C5. For an authenticated request for \<^verbatim>\<open>/v1/core/records\<close>, let \<open>expected\<close> be the first
  whitespace-separated word of the companion file, read as UTF-8 text, and \<open>bytes\<close> the
  contents of the corpus file. When \<open>expected\<close> differs from the hash of \<open>bytes\<close> the
  handler fails with \<^verbatim>\<open>IntegrityViolation\<close>, surfaced as a 500 response that carries no
  records; when they are equal the request succeeds with the records parsed from
  \<open>bytes\<close>; and every other such read, on any filesystem that holds the same two
  files, returns the same response.
\<close>

theorem corpus_read_checks_hash:
  assumes "authenticate st r = Inr who"
    and "rstrip_slash (url_path r) = ''/v1/core/records''"
    and "read_bytes fs (core_hash_path (config st)) = Inr companion"
    and "decode_utf8 companion = Some t"
    and "split_text (strip_text (universal_newlines t)) = expected # others"
    and "read_bytes fs (core_path (config st)) = Inr bytes"
  shows "(expected \<noteq> text_of (sha256_hex d bytes) \<longrightarrow>
            do_GET_try d st fs r = Inl (IntegrityViolation ''core hash mismatch'')
          \<and> do_GET d st fs r = error_response 500 ''server_error'' ''core hash mismatch'')
       \<and> (expected = text_of (sha256_hex d bytes) \<longrightarrow>
            do_GET d st fs r =
              json_response 200
                (JDict [(''records'',
                   JList (map (parse_record d)
                            (filter (\<lambda>l. strip l \<noteq> []) (split_on newline bytes))))]))
       \<and> (\<forall>fs' r' who'.
            authenticate st r' = Inr who'
            \<and> rstrip_slash (url_path r') = ''/v1/core/records''
            \<and> read_bytes fs' (core_hash_path (config st)) = Inr companion
            \<and> read_bytes fs' (core_path (config st)) = Inr bytes
            \<longrightarrow> do_GET d st fs' r' = do_GET d st fs r)"
proof -
  have run: "do_GET_try d st fs' r' =
      (if text_of (sha256_hex d bytes) \<noteq> expected then
         Inl (IntegrityViolation ''core hash mismatch'')
       else
         Inr (json_response 200
           (JDict [(''records'',
              JList (map (parse_record d)
                       (filter (\<lambda>l. strip l \<noteq> []) (split_on newline bytes))))])))"
    if "authenticate st r' = Inr who'" "rstrip_slash (url_path r') = ''/v1/core/records''"
      "read_bytes fs' (core_hash_path (config st)) = Inr companion"
      "read_bytes fs' (core_path (config st)) = Inr bytes"
    for fs' r' who'
    using that expected_core_sha256_eq [OF that(3) assms(4,5)]
    by (simp add: do_GET_try_def core_dataset_def verify_immutable_def
        compute_file_sha256_def load_def)
  note here = run [OF assms(1,2,3,6)]
  have bad: "do_GET_try d st fs r = Inl (IntegrityViolation ''core hash mismatch'')"
    and bad': "do_GET d st fs r = error_response 500 ''server_error'' ''core hash mismatch''"
    if "expected \<noteq> text_of (sha256_hex d bytes)"
    using that here by (auto simp: do_GET_def)
  have ok: "do_GET d st fs r =
      json_response 200
        (JDict [(''records'',
           JList (map (parse_record d) (filter (\<lambda>l. strip l \<noteq> []) (split_on newline bytes))))])"
    if "expected = text_of (sha256_hex d bytes)"
    using that here by (simp add: do_GET_def)
  have same: "do_GET d st fs' r' = do_GET d st fs r"
    if "authenticate st r' = Inr who'" "rstrip_slash (url_path r') = ''/v1/core/records''"
      "read_bytes fs' (core_hash_path (config st)) = Inr companion"
      "read_bytes fs' (core_path (config st)) = Inr bytes"
    for fs' r' who'
    using run [OF that] here by (simp add: do_GET_def)
  from bad bad' ok same show ?thesis by blast
qed

theorem corpus_read_checks_hash_witness:
  "do_GET sample_deps sample_state sample_fs
     (sample_request ''Bearer token-b'' ''/v1/core/records'' NoBody)
   = json_response 200 (JDict [(''records'', JList [JStr ''r1'', JStr ''r2''])])
   \<and> do_GET sample_deps sample_state
       (AList.update [''srv'', ''isolation_proof'', ''core'', ''core.jsonl'']
          (File (sample_corpus @ ''x'')) sample_fs)
       (sample_request ''Bearer token-b'' ''/v1/core/records'' NoBody)
   = error_response 500 ''server_error'' ''core hash mismatch''"
proof -
  let ?r = "sample_request ''Bearer token-b'' ''/v1/core/records'' NoBody"
  let ?fs' = "AList.update [''srv'', ''isolation_proof'', ''core'', ''core.jsonl'']
          (File (sample_corpus @ ''x'')) sample_fs"
  let ?companion = "''357  core.jsonl'' @ [newline]"
  have a: "authenticate sample_state ?r = Inr ''beta''" by code_simp
  have p: "rstrip_slash (url_path ?r) = ''/v1/core/records''" by code_simp
  have k: "read_bytes sample_fs (core_hash_path (config sample_state)) = Inr ?companion"
    by code_simp
  have k': "read_bytes ?fs' (core_hash_path (config sample_state)) = Inr ?companion"
    by code_simp
  have dc: "decode_utf8 ?companion = Some (text_of ?companion)" by code_simp
  have tk: "split_text (strip_text (universal_newlines (text_of ?companion)))
      = text_of ''357'' # [text_of ''core.jsonl'']"
    by code_simp
  have b: "read_bytes sample_fs (core_path (config sample_state)) = Inr sample_corpus"
    by code_simp
  have b': "read_bytes ?fs' (core_path (config sample_state)) = Inr (sample_corpus @ ''x'')"
    by code_simp
  have h: "text_of ''357'' = text_of (sha256_hex sample_deps sample_corpus)" by code_simp
  have h': "text_of ''357'' \<noteq> text_of (sha256_hex sample_deps (sample_corpus @ ''x''))"
    by code_simp
  have recs: "map (parse_record sample_deps)
      (filter (\<lambda>l. strip l \<noteq> []) (split_on newline sample_corpus)) = [JStr ''r1'', JStr ''r2'']"
    by code_simp
  from corpus_read_checks_hash [OF a p k dc tk b, of sample_deps] h
  have "do_GET sample_deps sample_state sample_fs ?r =
      json_response 200
        (JDict [(''records'',
           JList (map (parse_record sample_deps)
                    (filter (\<lambda>l. strip l \<noteq> []) (split_on newline sample_corpus))))])"
    by blast
  then have one: "do_GET sample_deps sample_state sample_fs ?r =
      json_response 200 (JDict [(''records'', JList [JStr ''r1'', JStr ''r2''])])"
    unfolding recs .
  from corpus_read_checks_hash [OF a p k' dc tk b', of sample_deps] h'
  have two: "do_GET sample_deps sample_state ?fs' ?r =
      error_response 500 ''server_error'' ''core hash mismatch''"
    by blast
  from one two show ?thesis by (rule conjI)
qed

section \<open>Round trip of a submitted batch\<close>




end
